theory Spec2Isabelle
  imports Main
begin

section \<open>The tree data model (include/tree.h)\<close>

text \<open>
  Nodes and trees live in an explicit store: a \<^verbatim>\<open>node_t *\<close> is an address, \<^verbatim>\<open>NULL\<close> is
  \<open>None\<close>.  The array \<^verbatim>\<open>subnodes\<close> with its \<^verbatim>\<open>subnode_count\<close> is the list of the children's
  addresses.  The value buffer is \<open>None\<close> until a value is set.  The field that tree.h calls
  \<^verbatim>\<open>recursive_subnode_size\<close> is written \<^verbatim>\<open>recursion_edge_size\<close> by f1_c_fuzz.c; the
  generators' name is kept.
\<close>

type_synonym addr = nat

record node_t =
  node_id :: nat
  recursion_edge_size :: nat
  non_term_size :: nat
  val_buf :: "string option"
  val_len :: nat
  parent :: "addr option"
  subnodes :: "addr list"

record tree_t =
  root :: "addr option"
  depth :: nat
  data_buf :: string
  data_len :: nat

text \<open>
  The program state: the two typed heaps with their allocation counters (an address is
  never handed out twice), the global \<^verbatim>\<open>max_depth\<close> of f1_c_fuzz.c, and the values that the
  successive calls of \<^verbatim>\<open>random()\<close> return (\<open>rnd\<close>, read at position \<open>rpos\<close>).
\<close>

record state =
  nodes :: "addr \<Rightarrow> node_t option"
  node_next :: addr
  trees :: "addr \<Rightarrow> tree_t option"
  tree_next :: addr
  max_depth :: int
  rnd :: "nat \<Rightarrow> nat"
  rpos :: nat

definition random_draw :: "state \<Rightarrow> nat \<times> state" where
  "random_draw s = (rnd s (rpos s), s\<lparr>rpos := rpos s + 1\<rparr>)"

text \<open>\<^verbatim>\<open>static inline int map_rand(int v) { return random() % v; }\<close>\<close>

definition map_rand :: "nat \<Rightarrow> state \<Rightarrow> nat \<times> state" where
  "map_rand v s = (case random_draw s of (x, s') \<Rightarrow> (x mod v, s'))"

definition upd_node :: "addr \<Rightarrow> (node_t \<Rightarrow> node_t) \<Rightarrow> state \<Rightarrow> state" where
  "upd_node a f s = s\<lparr>nodes := (nodes s)(a := map_option f (nodes s a))\<rparr>"

text \<open>
  Modelled from the spec: \<^verbatim>\<open>node_create\<close>, \<^verbatim>\<open>node_set_val\<close> and \<^verbatim>\<open>node_create_with_val\<close> are
  declared in tree.h and their bodies (tree.c) are not among the sources.  A created node
  has the given id, no value, no children and no parent.  What \<^verbatim>\<open>node_create\<close> stores in
  \<^verbatim>\<open>non_term_size\<close> is not known, so it is the parameter \<open>init\<close> of everything that creates
  a node.
\<close>

definition node_create :: "nat \<Rightarrow> nat \<Rightarrow> state \<Rightarrow> addr \<times> state" where
  "node_create init ident s =
     (node_next s,
      s\<lparr>nodes := (nodes s)(node_next s \<mapsto>
           \<lparr>node_id = ident, recursion_edge_size = 0, non_term_size = init,
            val_buf = None, val_len = 0, parent = None, subnodes = []\<rparr>),
        node_next := node_next s + 1\<rparr>)"

definition node_set_val :: "addr \<Rightarrow> string \<Rightarrow> nat \<Rightarrow> state \<Rightarrow> state" where
  "node_set_val node buf len s =
     upd_node node (\<lambda>n. n\<lparr>val_buf := Some (take len buf), val_len := len\<rparr>) s"

definition node_create_with_val :: "nat \<Rightarrow> nat \<Rightarrow> string \<Rightarrow> nat \<Rightarrow> state \<Rightarrow> addr \<times> state" where
  "node_create_with_val init ident buf len s =
     (case node_create init ident s of (node, s1) \<Rightarrow> (node, node_set_val node buf len s1))"

section \<open>The grammar generators (src/f1_c_fuzz.c)\<close>

text \<open>
  f1_c_fuzz.c is generated from the grammar: its thirty functions \<^verbatim>\<open>gen_start\<close> ...
  \<^verbatim>\<open>gen_digit_1\<close> are one template, instantiated with the rule's node type, its literal
  pool, the two arguments of \<^verbatim>\<open>map_rand\<close> and the cases of its \<^verbatim>\<open>switch\<close>.  The model is
  the template (\<open>gen_node\<close>) and the tables read off the file.  The node type \<^verbatim>\<open>INT\<close> is
  written \<open>INT_RULE\<close>.
\<close>

datatype rule =
    START | JSON | ELEMENT | VALUE | OBJECT | MEMBERS
  | MEMBER | ARRAY | ELEMENTS | STRING | CHARACTERS | CHARACTER
  | ESC | ESCC | NUMBER | INT_RULE | DIGITS | DIGIT
  | ONENINE | FRAC | EXP | SIGN | WS | SP1
  | SYMBOL | SYMBOL_1 | SYMBOL_2 | SYMBOL_1_1 | CHARACTER_1 | DIGIT_1

text \<open>
  Modelled from the spec: the node types' numbers are declared in f1_c_fuzz.h, which is
  not among the sources.  Rule ids are dense from 1 in the order of \<^verbatim>\<open>gen_funcs\<close>, and 0 is
  the generic terminal marker.
\<close>

definition TERM_NODE :: nat where
  "TERM_NODE = 0"

fun rule_id :: "rule \<Rightarrow> nat" where
  "rule_id START = 1"
| "rule_id JSON = 2"
| "rule_id ELEMENT = 3"
| "rule_id VALUE = 4"
| "rule_id OBJECT = 5"
| "rule_id MEMBERS = 6"
| "rule_id MEMBER = 7"
| "rule_id ARRAY = 8"
| "rule_id ELEMENTS = 9"
| "rule_id STRING = 10"
| "rule_id CHARACTERS = 11"
| "rule_id CHARACTER = 12"
| "rule_id ESC = 13"
| "rule_id ESCC = 14"
| "rule_id NUMBER = 15"
| "rule_id INT_RULE = 16"
| "rule_id DIGITS = 17"
| "rule_id DIGIT = 18"
| "rule_id ONENINE = 19"
| "rule_id FRAC = 20"
| "rule_id EXP = 21"
| "rule_id SIGN = 22"
| "rule_id WS = 23"
| "rule_id SP1 = 24"
| "rule_id SYMBOL = 25"
| "rule_id SYMBOL_1 = 26"
| "rule_id SYMBOL_2 = 27"
| "rule_id SYMBOL_1_1 = 28"
| "rule_id CHARACTER_1 = 29"
| "rule_id DIGIT_1 = 30"

text \<open>
  The literal pools \<^verbatim>\<open>pool_<rule>\<close> and their length arrays \<^verbatim>\<open>pool_l_<rule>\<close>.  The 93 entries
  of \<^verbatim>\<open>pool_l_character\<close> are all 1.
\<close>

fun pool :: "rule \<Rightarrow> string list" where
  "pool START = [''null'', ''false'', ''true'']"
| "pool JSON = [''true'', ''false'', ''null'']"
| "pool ELEMENT = [''null'', ''false'', ''true'']"
| "pool VALUE = [''null'', ''true'', ''false'']"
| "pool OBJECT = [''{}'']"
| "pool MEMBERS = [[CHR 0x22, CHR 0x22, CHR '':'', CHR ''t'', CHR ''r'', CHR ''u'', CHR ''e''], [CHR 0x22, CHR 0x22, CHR '':'', CHR ''n'', CHR ''u'', CHR ''l'', CHR ''l''], [CHR 0x22, CHR 0x22, CHR '':'', CHR ''f'', CHR ''a'', CHR ''l'', CHR ''s'', CHR ''e'']]"
| "pool MEMBER = [[CHR 0x22, CHR 0x22, CHR '':'', CHR ''f'', CHR ''a'', CHR ''l'', CHR ''s'', CHR ''e''], [CHR 0x22, CHR 0x22, CHR '':'', CHR ''n'', CHR ''u'', CHR ''l'', CHR ''l''], [CHR 0x22, CHR 0x22, CHR '':'', CHR ''t'', CHR ''r'', CHR ''u'', CHR ''e'']]"
| "pool ARRAY = [''[]'']"
| "pool ELEMENTS = [''true'', ''null'', ''false'']"
| "pool STRING = [[CHR 0x22, CHR 0x22]]"
| "pool CHARACTERS = [[]]"
| "pool CHARACTER = [''T'', ''3'', ''h'', ''n'', ''i'', ''N'', ''V'', ''e'', ''W'', ''z'', ''2'', ''-'', ''s'', ''?'', ''|'', ''H'', ''L'', ''U'', ''}'', ''1'', ''D'', ''7'', ''&'', ''Z'', ''0'', ''X'', [CHR 0x22], ''C'', ''J'', ''8'', ''$'', ''!'', ''#'', ''Q'', ''4'', ''@'', [CHR 0x60], '';'', ''p'', ''k'', ''('', ''<'', ''j'', ''P'', ''R'', ''O'', ''/'', ''l'', ''d'', ''w'', ''o'', ''^'', ''v'', ''='', ''m'', ''{'', ''M'', ''y'', '']'', ''E'', ''_'', '' '', ''.'', ''9'', ''B'', ''r'', '','', ''q'', ''u'', ''G'', ''~'', ''S'', ''>'', ''f'', ''t'', ''['', ''g'', ''6'', '':'', ''A'', ''Y'', ''5'', ''*'', ''a'', ''F'', ''I'', ''b'', ''%'', '')'', ''c'', ''x'', ''K'', ''+'']"
| "pool ESC = [[CHR 0x5C, CHR ''t''], [CHR 0x5C, CHR ''r''], [CHR 0x5C, CHR ''b''], [CHR 0x5C, CHR 0x22], [CHR 0x5C, CHR 0x5C], [CHR 0x5C, CHR ''f''], [CHR 0x5C, CHR ''n'']]"
| "pool ESCC = [[CHR 0x22], ''b'', ''n'', [CHR 0x5C], ''r'', ''t'', ''f'']"
| "pool NUMBER = [''0'']"
| "pool INT_RULE = [''0'']"
| "pool DIGITS = [''0'']"
| "pool DIGIT = [''0'']"
| "pool ONENINE = [''6'', ''5'', ''8'', ''2'', ''3'', ''1'', ''7'', ''9'', ''4'']"
| "pool FRAC = [[]]"
| "pool EXP = [[]]"
| "pool SIGN = [''-'', [], ''+'']"
| "pool WS = [[]]"
| "pool SP1 = ['' '', [CHR 0x09], [CHR 0x0D], [CHR 0x0A]]"
| "pool SYMBOL = [[CHR '','', CHR 0x22, CHR 0x22, CHR '':'', CHR ''t'', CHR ''r'', CHR ''u'', CHR ''e''], [CHR '','', CHR 0x22, CHR 0x22, CHR '':'', CHR ''n'', CHR ''u'', CHR ''l'', CHR ''l''], [CHR '','', CHR 0x22, CHR 0x22, CHR '':'', CHR ''f'', CHR ''a'', CHR ''l'', CHR ''s'', CHR ''e'']]"
| "pool SYMBOL_1 = ['',null'', '',true'', '',false'']"
| "pool SYMBOL_2 = [[]]"
| "pool SYMBOL_1_1 = [[]]"
| "pool CHARACTER_1 = [[]]"
| "pool DIGIT_1 = [''0'']"

fun pool_l :: "rule \<Rightarrow> nat list" where
  "pool_l START = [4, 5, 4]"
| "pool_l JSON = [4, 5, 4]"
| "pool_l ELEMENT = [4, 5, 4]"
| "pool_l VALUE = [4, 4, 5]"
| "pool_l OBJECT = [2]"
| "pool_l MEMBERS = [7, 7, 8]"
| "pool_l MEMBER = [8, 7, 7]"
| "pool_l ARRAY = [2]"
| "pool_l ELEMENTS = [4, 4, 5]"
| "pool_l STRING = [2]"
| "pool_l CHARACTERS = [0]"
| "pool_l CHARACTER = replicate 93 1"
| "pool_l ESC = [2, 2, 2, 2, 2, 2, 2]"
| "pool_l ESCC = [1, 1, 1, 1, 1, 1, 1]"
| "pool_l NUMBER = [1]"
| "pool_l INT_RULE = [1]"
| "pool_l DIGITS = [1]"
| "pool_l DIGIT = [1]"
| "pool_l ONENINE = [1, 1, 1, 1, 1, 1, 1, 1, 1]"
| "pool_l FRAC = [0]"
| "pool_l EXP = [0]"
| "pool_l SIGN = [1, 0, 1]"
| "pool_l WS = [0]"
| "pool_l SP1 = [1, 1, 1, 1]"
| "pool_l SYMBOL = [8, 8, 9]"
| "pool_l SYMBOL_1 = [5, 5, 6]"
| "pool_l SYMBOL_2 = [0]"
| "pool_l SYMBOL_1_1 = [0]"
| "pool_l CHARACTER_1 = [0]"
| "pool_l DIGIT_1 = [1]"

text \<open>The argument of \<^verbatim>\<open>map_rand\<close> in the branch \<^verbatim>\<open>depth > max_depth\<close> of each generator.\<close>

fun pool_n :: "rule \<Rightarrow> nat" where
  "pool_n START = 3"
| "pool_n JSON = 3"
| "pool_n ELEMENT = 3"
| "pool_n VALUE = 3"
| "pool_n OBJECT = 1"
| "pool_n MEMBERS = 3"
| "pool_n MEMBER = 3"
| "pool_n ARRAY = 1"
| "pool_n ELEMENTS = 3"
| "pool_n STRING = 1"
| "pool_n CHARACTERS = 1"
| "pool_n CHARACTER = 93"
| "pool_n ESC = 7"
| "pool_n ESCC = 7"
| "pool_n NUMBER = 1"
| "pool_n INT_RULE = 1"
| "pool_n DIGITS = 1"
| "pool_n DIGIT = 1"
| "pool_n ONENINE = 9"
| "pool_n FRAC = 1"
| "pool_n EXP = 1"
| "pool_n SIGN = 3"
| "pool_n WS = 1"
| "pool_n SP1 = 4"
| "pool_n SYMBOL = 3"
| "pool_n SYMBOL_1 = 3"
| "pool_n SYMBOL_2 = 1"
| "pool_n SYMBOL_1_1 = 1"
| "pool_n CHARACTER_1 = 1"
| "pool_n DIGIT_1 = 1"

text \<open>The argument of \<^verbatim>\<open>map_rand\<close> that selects the case of the \<^verbatim>\<open>switch\<close>.\<close>

fun alt_n :: "rule \<Rightarrow> nat" where
  "alt_n START = 1"
| "alt_n JSON = 1"
| "alt_n ELEMENT = 1"
| "alt_n VALUE = 7"
| "alt_n OBJECT = 2"
| "alt_n MEMBERS = 1"
| "alt_n MEMBER = 1"
| "alt_n ARRAY = 2"
| "alt_n ELEMENTS = 1"
| "alt_n STRING = 1"
| "alt_n CHARACTERS = 1"
| "alt_n CHARACTER = 94"
| "alt_n ESC = 1"
| "alt_n ESCC = 7"
| "alt_n NUMBER = 1"
| "alt_n INT_RULE = 4"
| "alt_n DIGITS = 1"
| "alt_n DIGIT = 2"
| "alt_n ONENINE = 9"
| "alt_n FRAC = 2"
| "alt_n EXP = 3"
| "alt_n SIGN = 3"
| "alt_n WS = 2"
| "alt_n SP1 = 4"
| "alt_n SYMBOL = 1"
| "alt_n SYMBOL_1 = 1"
| "alt_n SYMBOL_2 = 2"
| "alt_n SYMBOL_1_1 = 2"
| "alt_n CHARACTER_1 = 2"
| "alt_n DIGIT_1 = 2"

text \<open>
  One entry per child that a case of the \<^verbatim>\<open>switch\<close> attaches, in the order of the slots:
  \<open>Term str l\<close> is \<^verbatim>\<open>node_create_with_val(TERM_NODE, str, l)\<close>; \<open>NonTerm r\<close> is
  \<^verbatim>\<open>gen_r(depth +1)\<close> followed by \<^verbatim>\<open>node->non_term_size += 1\<close>; \<open>RecNonTerm r\<close> is the same
  followed by \<^verbatim>\<open>node->recursion_edge_size += 1\<close>.
\<close>

datatype sym = Term string nat | NonTerm rule | RecNonTerm rule

fun alts :: "rule \<Rightarrow> sym list list" where
  "alts START =
     [[NonTerm JSON]]"
| "alts JSON =
     [[NonTerm ELEMENT]]"
| "alts ELEMENT =
     [[NonTerm WS, NonTerm VALUE, NonTerm WS]]"
| "alts VALUE =
     [[Term ''false'' 5],
      [Term ''null'' 4],
      [Term ''true'' 4],
      [NonTerm ARRAY],
      [NonTerm OBJECT],
      [NonTerm NUMBER],
      [NonTerm STRING]]"
| "alts OBJECT =
     [[Term ''{'' 1, NonTerm WS, Term ''}'' 1],
      [Term ''{'' 1, NonTerm MEMBERS, Term ''}'' 1]]"
| "alts MEMBERS =
     [[NonTerm MEMBER, NonTerm SYMBOL_2]]"
| "alts MEMBER =
     [[NonTerm WS, NonTerm STRING, NonTerm WS, Term '':'' 1, NonTerm ELEMENT]]"
| "alts ARRAY =
     [[Term ''['' 1, NonTerm WS, Term '']'' 1],
      [Term ''['' 1, NonTerm ELEMENTS, Term '']'' 1]]"
| "alts ELEMENTS =
     [[NonTerm ELEMENT, NonTerm SYMBOL_1_1]]"
| "alts STRING =
     [[Term [CHR 0x22] 1, NonTerm CHARACTERS, Term [CHR 0x22] 1]]"
| "alts CHARACTERS =
     [[NonTerm CHARACTER_1]]"
| "alts CHARACTER =
     [[Term '' '' 1], [Term ''!'' 1], [Term [CHR 0x22] 1], [Term ''#'' 1],
      [Term ''$'' 1], [Term ''%'' 1], [Term ''&'' 1], [Term ''('' 1],
      [Term '')'' 1], [Term ''*'' 1], [Term ''+'' 1], [Term '','' 1],
      [Term ''-'' 1], [Term ''.'' 1], [Term ''/'' 1], [Term ''0'' 1],
      [Term ''1'' 1], [Term ''2'' 1], [Term ''3'' 1], [Term ''4'' 1],
      [Term ''5'' 1], [Term ''6'' 1], [Term ''7'' 1], [Term ''8'' 1],
      [Term ''9'' 1], [Term '':'' 1], [Term '';'' 1], [Term ''<'' 1],
      [Term ''='' 1], [Term ''>'' 1], [Term ''?'' 1], [Term ''@'' 1],
      [Term ''A'' 1], [Term ''B'' 1], [Term ''C'' 1], [Term ''D'' 1],
      [Term ''E'' 1], [Term ''F'' 1], [Term ''G'' 1], [Term ''H'' 1],
      [Term ''I'' 1], [Term ''J'' 1], [Term ''K'' 1], [Term ''L'' 1],
      [Term ''M'' 1], [Term ''N'' 1], [Term ''O'' 1], [Term ''P'' 1],
      [Term ''Q'' 1], [Term ''R'' 1], [Term ''S'' 1], [Term ''T'' 1],
      [Term ''U'' 1], [Term ''V'' 1], [Term ''W'' 1], [Term ''X'' 1],
      [Term ''Y'' 1], [Term ''Z'' 1], [Term ''['' 1], [Term '']'' 1],
      [Term ''^'' 1], [Term ''_'' 1], [Term [CHR 0x60] 1], [Term ''a'' 1],
      [Term ''b'' 1], [Term ''c'' 1], [Term ''d'' 1], [Term ''e'' 1],
      [Term ''f'' 1], [Term ''g'' 1], [Term ''h'' 1], [Term ''i'' 1],
      [Term ''j'' 1], [Term ''k'' 1], [Term ''l'' 1], [Term ''m'' 1],
      [Term ''n'' 1], [Term ''o'' 1], [Term ''p'' 1], [Term ''q'' 1],
      [Term ''r'' 1], [Term ''s'' 1], [Term ''t'' 1], [Term ''u'' 1],
      [Term ''v'' 1], [Term ''w'' 1], [Term ''x'' 1], [Term ''y'' 1],
      [Term ''z'' 1], [Term ''{'' 1], [Term ''|'' 1], [Term ''}'' 1],
      [Term ''~'' 1], [NonTerm ESC]]"
| "alts ESC =
     [[Term [CHR 0x5C] 1, NonTerm ESCC]]"
| "alts ESCC =
     [[Term [CHR 0x22] 1],
      [Term [CHR 0x5C] 1],
      [Term ''b'' 1],
      [Term ''f'' 1],
      [Term ''n'' 1],
      [Term ''r'' 1],
      [Term ''t'' 1]]"
| "alts NUMBER =
     [[NonTerm INT_RULE, NonTerm FRAC, NonTerm EXP]]"
| "alts INT_RULE =
     [[NonTerm DIGIT],
      [Term ''-'' 1, NonTerm DIGITS],
      [Term ''-'' 1, NonTerm ONENINE, NonTerm DIGITS],
      [NonTerm ONENINE, NonTerm DIGITS]]"
| "alts DIGITS =
     [[NonTerm DIGIT_1]]"
| "alts DIGIT =
     [[Term ''0'' 1],
      [NonTerm ONENINE]]"
| "alts ONENINE =
     [[Term ''1'' 1],
      [Term ''2'' 1],
      [Term ''3'' 1],
      [Term ''4'' 1],
      [Term ''5'' 1],
      [Term ''6'' 1],
      [Term ''7'' 1],
      [Term ''8'' 1],
      [Term ''9'' 1]]"
| "alts FRAC =
     [[],
      [Term ''.'' 1, NonTerm DIGITS]]"
| "alts EXP =
     [[],
      [Term ''E'' 1, NonTerm SIGN, NonTerm DIGITS],
      [Term ''e'' 1, NonTerm SIGN, NonTerm DIGITS]]"
| "alts SIGN =
     [[],
      [Term ''+'' 1],
      [Term ''-'' 1]]"
| "alts WS =
     [[],
      [NonTerm SP1, RecNonTerm WS]]"
| "alts SP1 =
     [[Term [CHR 0x09] 1],
      [Term [CHR 0x0A] 1],
      [Term [CHR 0x0D] 1],
      [Term '' '' 1]]"
| "alts SYMBOL =
     [[Term '','' 1, NonTerm MEMBERS]]"
| "alts SYMBOL_1 =
     [[Term '','' 1, NonTerm ELEMENTS]]"
| "alts SYMBOL_2 =
     [[],
      [NonTerm SYMBOL, RecNonTerm SYMBOL_2]]"
| "alts SYMBOL_1_1 =
     [[],
      [NonTerm SYMBOL_1, RecNonTerm SYMBOL_1_1]]"
| "alts CHARACTER_1 =
     [[],
      [NonTerm CHARACTER, RecNonTerm CHARACTER_1]]"
| "alts DIGIT_1 =
     [[NonTerm DIGIT],
      [NonTerm DIGIT, RecNonTerm DIGIT_1]]"

text \<open>
  \<^verbatim>\<open>node->subnodes[i] = subnode\<close>: every case fills the slots \<open>0, 1, ...\<close> in this order, so
  the slot written is the end of the list built so far.
\<close>

definition set_subnode :: "addr \<Rightarrow> addr \<Rightarrow> state \<Rightarrow> state" where
  "set_subnode node subnode s = upd_node node (\<lambda>n. n\<lparr>subnodes := subnodes n @ [subnode]\<rparr>) s"

definition inc_non_term_size :: "addr \<Rightarrow> state \<Rightarrow> state" where
  "inc_non_term_size node s = upd_node node (\<lambda>n. n\<lparr>non_term_size := non_term_size n + 1\<rparr>) s"

definition inc_recursion_edge_size :: "addr \<Rightarrow> state \<Rightarrow> state" where
  "inc_recursion_edge_size node s =
     upd_node node (\<lambda>n. n\<lparr>recursion_edge_size := recursion_edge_size n + 1\<rparr>) s"

text \<open>
  The generators read the global \<^verbatim>\<open>max_depth\<close> and never write it; it is the argument
  \<open>md\<close>.  A \<^verbatim>\<open>val\<close> with no case in the \<^verbatim>\<open>switch\<close> attaches nothing.
\<close>

function gen_node :: "nat \<Rightarrow> int \<Rightarrow> rule \<Rightarrow> int \<Rightarrow> state \<Rightarrow> addr \<times> state"
  and gen_subnodes :: "nat \<Rightarrow> int \<Rightarrow> int \<Rightarrow> addr \<Rightarrow> sym list \<Rightarrow> state \<Rightarrow> state"
where
  "gen_node init md r dep s =
     (case node_create init (rule_id r) s of (node, s1) \<Rightarrow>
        if dep > md then
          (case map_rand (pool_n r) s1 of (val, s2) \<Rightarrow>
             (node, node_set_val node (pool r ! val) (pool_l r ! val) s2))
        else
          (case map_rand (alt_n r) s1 of (val, s2) \<Rightarrow>
             (node, gen_subnodes init md dep node
                      (if val < length (alts r) then alts r ! val else []) s2)))"
| "gen_subnodes init md dep node [] s = s"
| "gen_subnodes init md dep node (Term str l # syms) s =
     (case node_create_with_val init TERM_NODE str l s of (subnode, s1) \<Rightarrow>
        gen_subnodes init md dep node syms (set_subnode node subnode s1))"
| "gen_subnodes init md dep node (NonTerm r # syms) s =
     (case gen_node init md r (dep + 1) s of (subnode, s1) \<Rightarrow>
        gen_subnodes init md dep node syms
          (set_subnode node subnode (inc_non_term_size node s1)))"
| "gen_subnodes init md dep node (RecNonTerm r # syms) s =
     (case gen_node init md r (dep + 1) s of (subnode, s1) \<Rightarrow>
        gen_subnodes init md dep node syms
          (set_subnode node subnode
             (inc_recursion_edge_size node (inc_non_term_size node s1))))"
  by pat_completeness auto

termination
  by (relation "measures
        [\<lambda>x. case x of
            Inl (init, md, r, dep, s) \<Rightarrow> (if dep > md then 0 else 2 * nat (md - dep) + 4)
          | Inr (init, md, dep, node, syms, s) \<Rightarrow> 2 * nat (md - dep) + 3,
         \<lambda>x. case x of Inl _ \<Rightarrow> 0 | Inr (init, md, dep, node, syms, s) \<Rightarrow> length syms]")
     (auto split: if_splits)

type_synonym gen_func_t = "nat \<Rightarrow> int \<Rightarrow> int \<Rightarrow> state \<Rightarrow> addr \<times> state"

definition gen_start :: gen_func_t where
  "gen_start init md = gen_node init md START"

definition gen_json :: gen_func_t where
  "gen_json init md = gen_node init md JSON"

definition gen_element :: gen_func_t where
  "gen_element init md = gen_node init md ELEMENT"

definition gen_value :: gen_func_t where
  "gen_value init md = gen_node init md VALUE"

definition gen_object :: gen_func_t where
  "gen_object init md = gen_node init md OBJECT"

definition gen_members :: gen_func_t where
  "gen_members init md = gen_node init md MEMBERS"

definition gen_member :: gen_func_t where
  "gen_member init md = gen_node init md MEMBER"

definition gen_array :: gen_func_t where
  "gen_array init md = gen_node init md ARRAY"

definition gen_elements :: gen_func_t where
  "gen_elements init md = gen_node init md ELEMENTS"

definition gen_string :: gen_func_t where
  "gen_string init md = gen_node init md STRING"

definition gen_characters :: gen_func_t where
  "gen_characters init md = gen_node init md CHARACTERS"

definition gen_character :: gen_func_t where
  "gen_character init md = gen_node init md CHARACTER"

definition gen_esc :: gen_func_t where
  "gen_esc init md = gen_node init md ESC"

definition gen_escc :: gen_func_t where
  "gen_escc init md = gen_node init md ESCC"

definition gen_number :: gen_func_t where
  "gen_number init md = gen_node init md NUMBER"

definition gen_int :: gen_func_t where
  "gen_int init md = gen_node init md INT_RULE"

definition gen_digits :: gen_func_t where
  "gen_digits init md = gen_node init md DIGITS"

definition gen_digit :: gen_func_t where
  "gen_digit init md = gen_node init md DIGIT"

definition gen_onenine :: gen_func_t where
  "gen_onenine init md = gen_node init md ONENINE"

definition gen_frac :: gen_func_t where
  "gen_frac init md = gen_node init md FRAC"

definition gen_exp :: gen_func_t where
  "gen_exp init md = gen_node init md EXP"

definition gen_sign :: gen_func_t where
  "gen_sign init md = gen_node init md SIGN"

definition gen_ws :: gen_func_t where
  "gen_ws init md = gen_node init md WS"

definition gen_sp1 :: gen_func_t where
  "gen_sp1 init md = gen_node init md SP1"

definition gen_symbol :: gen_func_t where
  "gen_symbol init md = gen_node init md SYMBOL"

definition gen_symbol_1 :: gen_func_t where
  "gen_symbol_1 init md = gen_node init md SYMBOL_1"

definition gen_symbol_2 :: gen_func_t where
  "gen_symbol_2 init md = gen_node init md SYMBOL_2"

definition gen_symbol_1_1 :: gen_func_t where
  "gen_symbol_1_1 init md = gen_node init md SYMBOL_1_1"

definition gen_character_1 :: gen_func_t where
  "gen_character_1 init md = gen_node init md CHARACTER_1"

definition gen_digit_1 :: gen_func_t where
  "gen_digit_1 init md = gen_node init md DIGIT_1"

text \<open>
  \<^verbatim>\<open>gen_func_t gen_funcs[31]\<close>: entry 0 is \<^verbatim>\<open>NULL\<close>.
\<close>

definition gen_funcs :: "gen_func_t option list" where
  "gen_funcs =
    [None,
     Some gen_start, Some gen_json, Some gen_element, Some gen_value,
     Some gen_object, Some gen_members, Some gen_member, Some gen_array,
     Some gen_elements, Some gen_string, Some gen_characters, Some gen_character,
     Some gen_esc, Some gen_escc, Some gen_number, Some gen_int,
     Some gen_digits, Some gen_digit, Some gen_onenine, Some gen_frac,
     Some gen_exp, Some gen_sign, Some gen_ws, Some gen_sp1,
     Some gen_symbol, Some gen_symbol_1, Some gen_symbol_2, Some gen_symbol_1_1,
     Some gen_character_1, Some gen_digit_1]"

text \<open>
  Modelled from the spec: \<^verbatim>\<open>tree_create\<close> is declared in tree.h only.  A created tree has no
  root and an empty data buffer.
\<close>

definition tree_create :: "state \<Rightarrow> addr \<times> state" where
  "tree_create s =
     (tree_next s,
      s\<lparr>trees := (trees s)(tree_next s \<mapsto> \<lparr>root = None, depth = 0, data_buf = [], data_len = 0\<rparr>),
        tree_next := tree_next s + 1\<rparr>)"

definition upd_tree :: "addr \<Rightarrow> (tree_t \<Rightarrow> tree_t) \<Rightarrow> state \<Rightarrow> state" where
  "upd_tree t f s = s\<lparr>trees := (trees s)(t := map_option f (trees s t))\<rparr>"

text \<open>\<^verbatim>\<open>gen_init__\<close>: \<^verbatim>\<open>tree->root = gen_start(0)\<close>; the generator reads the global bound.\<close>

definition gen_init :: "nat \<Rightarrow> state \<Rightarrow> addr \<times> state" where
  "gen_init init s =
     (case tree_create s of (tree, s1) \<Rightarrow>
        (case gen_start init (max_depth s1) 0 s1 of (node, s2) \<Rightarrow>
           (tree, upd_tree tree (\<lambda>t. t\<lparr>root := Some node\<rparr>) s2)))"

section \<open>Node selection and mutation (src/tree_mutation.c)\<close>

text \<open>
  What the C program does on a pointer that is not a live node, on a call through a null
  function pointer and on a read past the end of \<^verbatim>\<open>gen_funcs\<close> is undefined; the model
  returns an error there.  The functions that walk a tree through its pointers take a
  recursion budget and return \<open>OutOfFuel\<close> when the walk is deeper than it (a cyclic
  structure is walked forever by the C code).
\<close>

datatype error = BadPointer | NullCall | OutOfBounds | OutOfFuel

text \<open>
  \<^verbatim>\<open>_pick_node\<close>.  The loop over the children of \<^verbatim>\<open>root\<close> returns the first non-null
  result.  tree_mutation.c walks the children as a linked list (\<^verbatim>\<open>subnode->next\<close>) where
  tree.h has an array; both are the sequence of children in order.
\<close>

fun pick_first ::
  "(addr \<Rightarrow> state \<Rightarrow> error + (addr option \<times> state)) \<Rightarrow> addr list \<Rightarrow> state \<Rightarrow>
     error + (addr option \<times> state)" where
  "pick_first pick [] s = Inr (None, s)"
| "pick_first pick (subnode # rest) s =
     (case pick subnode s of
        Inl e \<Rightarrow> Inl e
      | Inr (Some ret, s1) \<Rightarrow> Inr (Some ret, s1)
      | Inr (None, s1) \<Rightarrow> pick_first pick rest s1)"

primrec pick_node :: "nat \<Rightarrow> addr \<Rightarrow> state \<Rightarrow> error + (addr option \<times> state)" where
  "pick_node 0 root_node s = Inl OutOfFuel"
| "pick_node (Suc fuel) root_node s =
     (case random_draw s of (x, s1) \<Rightarrow>
        if x mod 2 \<noteq> 0 then Inr (Some root_node, s1)
        else
          (case nodes s1 root_node of
             None \<Rightarrow> Inl BadPointer
           | Some n \<Rightarrow> pick_first (pick_node fuel) (subnodes n) s1))"

text \<open>
  Modelled from the spec: \<^verbatim>\<open>node_clone\<close> and \<^verbatim>\<open>tree_clone\<close> are declared in tree.h only.
  Every node is freshly allocated with the id, value and counts copied, the children are
  cloned in order and their \<open>parent\<close> is the new node; the clone of the root has no parent.
\<close>

fun clone_subnodes ::
  "(addr \<Rightarrow> state \<Rightarrow> error + (addr \<times> state)) \<Rightarrow> addr \<Rightarrow> addr list \<Rightarrow> state \<Rightarrow> error + state"
  where
  "clone_subnodes clone new_node [] s = Inr s"
| "clone_subnodes clone new_node (subnode # rest) s =
     (case clone subnode s of
        Inl e \<Rightarrow> Inl e
      | Inr (new_subnode, s1) \<Rightarrow>
          clone_subnodes clone new_node rest
            (set_subnode new_node new_subnode
               (upd_node new_subnode (\<lambda>n. n\<lparr>parent := Some new_node\<rparr>) s1)))"

primrec node_clone :: "nat \<Rightarrow> addr \<Rightarrow> state \<Rightarrow> error + (addr \<times> state)" where
  "node_clone 0 node s = Inl OutOfFuel"
| "node_clone (Suc fuel) node s =
     (case nodes s node of
        None \<Rightarrow> Inl BadPointer
      | Some n \<Rightarrow>
          (case clone_subnodes (node_clone fuel) (node_next s) (subnodes n)
                  (s\<lparr>nodes := (nodes s)(node_next s \<mapsto> n\<lparr>parent := None, subnodes := []\<rparr>),
                     node_next := node_next s + 1\<rparr>) of
             Inl e \<Rightarrow> Inl e
           | Inr s1 \<Rightarrow> Inr (node_next s, s1)))"

definition tree_clone :: "nat \<Rightarrow> addr \<Rightarrow> state \<Rightarrow> error + (addr \<times> state)" where
  "tree_clone fuel tree s =
     (case trees s tree of
        None \<Rightarrow> Inl BadPointer
      | Some t \<Rightarrow>
          (case root t of
             None \<Rightarrow>
               Inr (tree_next s,
                    s\<lparr>trees := (trees s)(tree_next s \<mapsto> t), tree_next := tree_next s + 1\<rparr>)
           | Some r \<Rightarrow>
               (case node_clone fuel r s of
                  Inl e \<Rightarrow> Inl e
                | Inr (new_root, s1) \<Rightarrow>
                    Inr (tree_next s1,
                         s1\<lparr>trees := (trees s1)(tree_next s1 \<mapsto> t\<lparr>root := Some new_root\<rparr>),
                            tree_next := tree_next s1 + 1\<rparr>))))"

text \<open>
  Modelled from the spec: \<^verbatim>\<open>node_free\<close> is declared in tree.h only.  It frees the node's
  subtree, children first.  Freeing what is not a live node is an error.
\<close>

fun free_subnodes :: "(addr \<Rightarrow> state \<Rightarrow> error + state) \<Rightarrow> addr list \<Rightarrow> state \<Rightarrow> error + state"
  where
  "free_subnodes free [] s = Inr s"
| "free_subnodes free (subnode # rest) s =
     (case free subnode s of
        Inl e \<Rightarrow> Inl e
      | Inr s1 \<Rightarrow> free_subnodes free rest s1)"

primrec node_free :: "nat \<Rightarrow> addr \<Rightarrow> state \<Rightarrow> error + state" where
  "node_free 0 node s = Inl OutOfFuel"
| "node_free (Suc fuel) node s =
     (case nodes s node of
        None \<Rightarrow> Inl BadPointer
      | Some n \<Rightarrow>
          (case free_subnodes (node_free fuel) (subnodes n) s of
             Inl e \<Rightarrow> Inl e
           | Inr s1 \<Rightarrow> Inr (s1\<lparr>nodes := (nodes s1)(node := None)\<rparr>)))"

text \<open>
  Modelled from the spec: \<^verbatim>\<open>node_replace_subnode\<close> is declared in tree.h only.  It looks
  for \<open>subnode\<close> among the descendants of \<open>root_node\<close> by address, child by child and then
  below the child; where it finds it, it writes \<open>new_subnode\<close> into that slot of the
  parent and sets \<open>new_subnode\<close>'s parent.  It frees nothing.  The result is whether
  \<open>subnode\<close> was found.
\<close>

fun replace_in_subnodes ::
  "(addr \<Rightarrow> state \<Rightarrow> error + (bool \<times> state)) \<Rightarrow> addr \<Rightarrow> nat \<Rightarrow> addr list \<Rightarrow> addr \<Rightarrow> addr \<Rightarrow>
     state \<Rightarrow> error + (bool \<times> state)" where
  "replace_in_subnodes replace root_node i [] subnode new_subnode s = Inr (False, s)"
| "replace_in_subnodes replace root_node i (c # rest) subnode new_subnode s =
     (if c = subnode then
        (case nodes s new_subnode of
           None \<Rightarrow> Inl BadPointer
         | Some _ \<Rightarrow>
             Inr (True,
                  upd_node new_subnode (\<lambda>n. n\<lparr>parent := Some root_node\<rparr>)
                    (upd_node root_node (\<lambda>n. n\<lparr>subnodes := (subnodes n)[i := new_subnode]\<rparr>) s)))
      else
        (case replace c s of
           Inl e \<Rightarrow> Inl e
         | Inr (True, s1) \<Rightarrow> Inr (True, s1)
         | Inr (False, s1) \<Rightarrow>
             replace_in_subnodes replace root_node (i + 1) rest subnode new_subnode s1))"

primrec node_replace_subnode ::
  "nat \<Rightarrow> addr \<Rightarrow> addr \<Rightarrow> addr \<Rightarrow> state \<Rightarrow> error + (bool \<times> state)" where
  "node_replace_subnode 0 root_node subnode new_subnode s = Inl OutOfFuel"
| "node_replace_subnode (Suc fuel) root_node subnode new_subnode s =
     (case nodes s root_node of
        None \<Rightarrow> Inl BadPointer
      | Some n \<Rightarrow>
          replace_in_subnodes (\<lambda>c. node_replace_subnode fuel c subnode new_subnode) root_node 0
            (subnodes n) subnode new_subnode s)"

text \<open>
  \<^verbatim>\<open>random_mutation\<close>, lines 23 to 30: clone the tree, pick a node of the clone, fall back
  to the clone's root when the pick is \<^verbatim>\<open>NULL\<close>.  The result is the clone and the node.
\<close>

definition random_mutation_pick :: "nat \<Rightarrow> addr \<Rightarrow> state \<Rightarrow> error + ((addr \<times> addr) \<times> state)" where
  "random_mutation_pick fuel tree s =
     (case tree_clone fuel tree s of
        Inl e \<Rightarrow> Inl e
      | Inr (mutated_tree, s1) \<Rightarrow>
          (case trees s1 mutated_tree of
             None \<Rightarrow> Inl BadPointer
           | Some mt \<Rightarrow>
               (case root mt of
                  None \<Rightarrow> Inl BadPointer
                | Some r \<Rightarrow>
                    (case pick_node fuel r s1 of
                       Inl e \<Rightarrow> Inl e
                     | Inr (picked, s2) \<Rightarrow>
                         Inr ((mutated_tree, case picked of None \<Rightarrow> r | Some node \<Rightarrow> node), s2)))))"

text \<open>
  Lines 30 to 48: read the node's parent, draw \<^verbatim>\<open>max_depth\<close>, dispatch on the node's id,
  and put the generated node in the place of the picked one.
\<close>

definition random_mutation_replace ::
  "nat \<Rightarrow> nat \<Rightarrow> addr \<Rightarrow> addr \<Rightarrow> state \<Rightarrow> error + (addr \<times> state)" where
  "random_mutation_replace init fuel mutated_tree node s =
     (case nodes s node of
        None \<Rightarrow> Inl BadPointer
      | Some n \<Rightarrow>
          (case random_draw s of (x, s1) \<Rightarrow>
             (let s2 = s1\<lparr>max_depth := int (x mod 15) + 1\<rparr> in
              if length gen_funcs \<le> node_id n then Inl OutOfBounds
              else
                (case gen_funcs ! node_id n of
                   None \<Rightarrow> Inl NullCall
                 | Some gen_func \<Rightarrow>
                     (case gen_func init (max_depth s2) 0 s2 of (replace_node, s3) \<Rightarrow>
                        (case parent n of
                           None \<Rightarrow>
                             (case node_free fuel node s3 of
                                Inl e \<Rightarrow> Inl e
                              | Inr s4 \<Rightarrow>
                                  (case trees s4 mutated_tree of
                                     None \<Rightarrow> Inl BadPointer
                                   | Some _ \<Rightarrow>
                                       Inr (mutated_tree,
                                            upd_tree mutated_tree
                                              (\<lambda>t. t\<lparr>root := Some replace_node\<rparr>) s4)))
                         | Some p \<Rightarrow>
                             (case node_replace_subnode fuel p node replace_node s3 of
                                Inl e \<Rightarrow> Inl e
                              | Inr (_, s4) \<Rightarrow>
                                  (case node_free fuel node s4 of
                                     Inl e \<Rightarrow> Inl e
                                   | Inr s5 \<Rightarrow> Inr (mutated_tree, s5)))))))))"

definition random_mutation :: "nat \<Rightarrow> nat \<Rightarrow> addr \<Rightarrow> state \<Rightarrow> error + (addr \<times> state)" where
  "random_mutation init fuel tree s =
     (case random_mutation_pick fuel tree s of
        Inl e \<Rightarrow> Inl e
      | Inr ((mutated_tree, node), s1) \<Rightarrow> random_mutation_replace init fuel mutated_tree node s1)"

section \<open>Properties of trees in the store\<close>

text \<open>
  The size invariant at one node: \<open>non_term_size\<close> is 1 for a non-terminal (a node that
  carries no value) and 0 for a terminal, plus the children's \<open>non_term_size\<close>.
\<close>

definition child_sizes :: "state \<Rightarrow> node_t \<Rightarrow> nat" where
  "child_sizes s n =
     sum_list (map (\<lambda>c. case nodes s c of None \<Rightarrow> 0 | Some m \<Rightarrow> non_term_size m) (subnodes n))"

definition size_invariant_at :: "state \<Rightarrow> addr \<Rightarrow> bool" where
  "size_invariant_at s a =
     (case nodes s a of
        None \<Rightarrow> False
      | Some n \<Rightarrow> non_term_size n = (if val_buf n = None then 1 else 0) + child_sizes s n)"

text \<open>The children of a node name it as their parent.\<close>

definition parents_wired_at :: "state \<Rightarrow> addr \<Rightarrow> bool" where
  "parents_wired_at s a =
     (case nodes s a of
        None \<Rightarrow> False
      | Some n \<Rightarrow>
          list_all (\<lambda>c. case nodes s c of None \<Rightarrow> False | Some m \<Rightarrow> parent m = Some a)
            (subnodes n))"

text \<open>The nodes below a node: its children, their children, and so on.\<close>

inductive descendant :: "state \<Rightarrow> addr \<Rightarrow> addr \<Rightarrow> bool" for s :: state where
  child: "nodes s a = Some n \<Longrightarrow> c \<in> set (subnodes n) \<Longrightarrow> descendant s a c"
| below: "nodes s a = Some n \<Longrightarrow> c \<in> set (subnodes n) \<Longrightarrow> descendant s c d \<Longrightarrow> descendant s a d"

text \<open>
  What a run of a generator does to the store, from \<open>s\<close> to \<open>s'\<close>: it allocates the
  addresses from \<open>node_next s\<close> up to \<open>node_next s'\<close> and writes nothing else; every node
  it allocates has no parent, and children at later addresses of the run.
\<close>

definition gen_region :: "state \<Rightarrow> state \<Rightarrow> bool" where
  "gen_region s s' \<longleftrightarrow>
     node_next s \<le> node_next s' \<and> trees s' = trees s \<and> tree_next s' = tree_next s \<and>
     max_depth s' = max_depth s \<and> rnd s' = rnd s \<and>
     (\<forall>a. a < node_next s \<or> node_next s' \<le> a \<longrightarrow> nodes s' a = nodes s a) \<and>
     (\<forall>a. node_next s \<le> a \<and> a < node_next s' \<longrightarrow>
        (\<exists>n. nodes s' a = Some n \<and> parent n = None \<and>
             (\<forall>c \<in> set (subnodes n). a < c \<and> c < node_next s')))"

text \<open>
  The same for the loop that attaches children to \<open>node\<close>, an older node: of \<open>node\<close> only
  the counters change and the child list grows by nodes of the run.
\<close>

definition sub_region :: "addr \<Rightarrow> state \<Rightarrow> state \<Rightarrow> bool" where
  "sub_region node s s' \<longleftrightarrow>
     node_next s \<le> node_next s' \<and> trees s' = trees s \<and> tree_next s' = tree_next s \<and>
     max_depth s' = max_depth s \<and> rnd s' = rnd s \<and>
     (\<forall>a. (a < node_next s \<or> node_next s' \<le> a) \<and> a \<noteq> node \<longrightarrow> nodes s' a = nodes s a) \<and>
     (\<forall>a. node_next s \<le> a \<and> a < node_next s' \<longrightarrow>
        (\<exists>n. nodes s' a = Some n \<and> parent n = None \<and>
             (\<forall>c \<in> set (subnodes n). a < c \<and> c < node_next s'))) \<and>
     (\<forall>n. nodes s node = Some n \<longrightarrow>
        (\<exists>n'. nodes s' node = Some n' \<and> node_id n' = node_id n \<and> parent n' = parent n \<and>
              val_buf n' = val_buf n \<and> val_len n' = val_len n \<and>
              (\<exists>cs. subnodes n' = subnodes n @ cs \<and>
                    (\<forall>c \<in> set cs. node_next s \<le> c \<and> c < node_next s'))))"

text \<open>A state with nothing allocated, for running the program on concrete draws.\<close>

definition empty_state :: "(nat \<Rightarrow> nat) \<Rightarrow> state" where
  "empty_state draws =
     \<lparr>nodes = (\<lambda>_. None), node_next = 0, trees = (\<lambda>_. None), tree_next = 0,
      max_depth = - 1, rnd = draws, rpos = 0\<rparr>"

text \<open>The draws that are 0 except for the values \<open>xs\<close> from position \<open>k\<close> on.\<close>

definition draws_from :: "nat \<Rightarrow> nat list \<Rightarrow> nat \<Rightarrow> nat" where
  "draws_from k xs i = (if k \<le> i \<and> i - k < length xs then xs ! (i - k) else 0)"

section \<open>What the tree operations do to the store\<close>

text \<open>
  What \<^verbatim>\<open>node_replace_subnode\<close> writes where it finds the node: slot \<open>j\<close> of \<open>q\<close> holds
  \<open>new_subnode\<close>, whose parent is \<open>q\<close>.
\<close>

definition replaced_at :: "addr \<Rightarrow> nat \<Rightarrow> addr \<Rightarrow> state \<Rightarrow> state" where
  "replaced_at q j new_subnode s =
     upd_node new_subnode (\<lambda>n. n\<lparr>parent := Some q\<rparr>)
       (upd_node q (\<lambda>n. n\<lparr>subnodes := (subnodes n)[j := new_subnode]\<rparr>) s)"

text \<open>
  \<open>subnode\<close> is found in slot \<open>j\<close> of \<open>q\<close>, a node at or below \<open>root_node\<close>, and in no
  earlier slot of \<open>q\<close>.
\<close>

definition found_at :: "state \<Rightarrow> addr \<Rightarrow> addr \<Rightarrow> addr \<Rightarrow> nat \<Rightarrow> bool" where
  "found_at s root_node subnode q j \<longleftrightarrow>
     (q = root_node \<or> descendant s root_node q) \<and>
     (case nodes s q of
        None \<Rightarrow> False
      | Some n \<Rightarrow> j < length (subnodes n) \<and> subnodes n ! j = subnode \<and>
          list_all (\<lambda>c. c \<noteq> subnode) (take j (subnodes n)))"

text \<open>
  From \<open>s\<close> to \<open>s'\<close> nothing but the node heap differs.
\<close>

definition nodes_only :: "state \<Rightarrow> state \<Rightarrow> bool" where
  "nodes_only s s' \<longleftrightarrow> s' = s\<lparr>nodes := nodes s'\<rparr>"

text \<open>
  From \<open>s\<close> to \<open>s'\<close> nodes were freed and nothing else happened, and the freed nodes are
  \<open>a\<close> or below \<open>a\<close>.
\<close>

definition freed_below :: "state \<Rightarrow> addr \<Rightarrow> state \<Rightarrow> bool" where
  "freed_below s a s' \<longleftrightarrow>
     nodes_only s s' \<and>
     (\<forall>b. nodes s' b = nodes s b \<or> (nodes s' b = None \<and> (b = a \<or> descendant s a b)))"

text \<open>
  From \<open>s\<close> to \<open>s'\<close> nothing but the position in the draws differs.
\<close>

definition rpos_only :: "state \<Rightarrow> state \<Rightarrow> bool" where
  "rpos_only s s' \<longleftrightarrow> s' = s\<lparr>rpos := rpos s'\<rparr>"

text \<open>
  A node of a cloned tree: its children have larger addresses, below \<open>hi\<close>, and each names
  it as its parent.
\<close>

definition node_ok :: "state \<Rightarrow> addr \<Rightarrow> addr \<Rightarrow> bool" where
  "node_ok s hi a \<longleftrightarrow>
     (\<exists>n. nodes s a = Some n \<and>
        (\<forall>c \<in> set (subnodes n). a < c \<and> c < hi \<and> (\<exists>m. nodes s c = Some m \<and> parent m = Some a)))"

text \<open>
  A node of a cloned tree other than the root: its parent is a node from \<open>lo\<close> up, with a
  smaller address, that holds it as a child.
\<close>

definition has_parent :: "state \<Rightarrow> addr \<Rightarrow> addr \<Rightarrow> bool" where
  "has_parent s lo a \<longleftrightarrow>
     (\<exists>n p m. nodes s a = Some n \<and> parent n = Some p \<and> lo \<le> p \<and> p < a \<and>
        nodes s p = Some m \<and> a \<in> set (subnodes m))"

text \<open>
  Everything but the node heap and its counter is the same.
\<close>

definition same_globals :: "state \<Rightarrow> state \<Rightarrow> bool" where
  "same_globals s s' \<longleftrightarrow>
     trees s' = trees s \<and> tree_next s' = tree_next s \<and> max_depth s' = max_depth s \<and>
     rnd s' = rnd s \<and> rpos s' = rpos s"

text \<open>
  What \<^verbatim>\<open>node_clone\<close> does to the store, from \<open>s\<close> to \<open>s'\<close>: it allocates the addresses from
  \<open>node_next s\<close> up to \<open>node_next s'\<close> and writes nothing else; the first new node is the
  clone's root and has no parent, and the new nodes are wired to each other.
\<close>

definition clone_region :: "state \<Rightarrow> state \<Rightarrow> bool" where
  "clone_region s s' \<longleftrightarrow>
     node_next s < node_next s' \<and> same_globals s s' \<and>
     (\<forall>a. a < node_next s \<or> node_next s' \<le> a \<longrightarrow> nodes s' a = nodes s a) \<and>
     (\<exists>n. nodes s' (node_next s) = Some n \<and> parent n = None) \<and>
     (\<forall>a. node_next s \<le> a \<and> a < node_next s' \<longrightarrow> node_ok s' (node_next s') a) \<and>
     (\<forall>a. node_next s < a \<and> a < node_next s' \<longrightarrow> has_parent s' (node_next s) a)"

text \<open>
  The same for the loop that clones the children under \<open>new_node\<close>, an older node: of
  \<open>new_node\<close> only the child list grows, by nodes of the run that name it as parent.
\<close>

definition clone_sub :: "addr \<Rightarrow> state \<Rightarrow> state \<Rightarrow> bool" where
  "clone_sub new_node s s' \<longleftrightarrow>
     node_next s \<le> node_next s' \<and> same_globals s s' \<and>
     (\<forall>a. (a < node_next s \<or> node_next s' \<le> a) \<and> a \<noteq> new_node \<longrightarrow> nodes s' a = nodes s a) \<and>
     (\<forall>n. nodes s new_node = Some n \<longrightarrow>
        (\<exists>cs. nodes s' new_node = Some (n\<lparr>subnodes := subnodes n @ cs\<rparr>) \<and>
           (\<forall>c \<in> set cs. node_next s \<le> c \<and> c < node_next s' \<and>
              (\<exists>m. nodes s' c = Some m \<and> parent m = Some new_node)))) \<and>
     (\<forall>a. node_next s \<le> a \<and> a < node_next s' \<longrightarrow>
        node_ok s' (node_next s') a \<and> has_parent s' new_node a)"

text \<open>
  In the addresses from \<open>lo\<close> up to \<open>hi\<close> every child has a larger address than the node
  that holds it, below \<open>hi\<close>.
\<close>

definition ord_region :: "addr \<Rightarrow> addr \<Rightarrow> state \<Rightarrow> bool" where
  "ord_region lo hi s \<longleftrightarrow>
     (\<forall>a n. lo \<le> a \<and> a < hi \<and> nodes s a = Some n \<longrightarrow>
        (\<forall>c \<in> set (subnodes n). a < c \<and> c < hi))"

text \<open>
  The nodes from \<open>lo\<close> up to the allocation counter are a cloned tree with root \<open>lo\<close>.
\<close>

definition clone_nodes :: "addr \<Rightarrow> state \<Rightarrow> bool" where
  "clone_nodes lo s \<longleftrightarrow>
     lo < node_next s \<and>
     (\<exists>n. nodes s lo = Some n \<and> parent n = None) \<and>
     (\<forall>a. lo \<le> a \<and> a < node_next s \<longrightarrow> node_ok s (node_next s) a) \<and>
     (\<forall>a. lo < a \<and> a < node_next s \<longrightarrow> has_parent s lo a)"

text \<open>
  The rules in the order of their ids: \<^verbatim>\<open>gen_funcs\<close> without its null entry.
\<close>

definition rules :: "rule list" where
  "rules = [START, JSON, ELEMENT, VALUE, OBJECT, MEMBERS, MEMBER, ARRAY, ELEMENTS, STRING,
     CHARACTERS, CHARACTER, ESC, ESCC, NUMBER, INT_RULE, DIGITS, DIGIT, ONENINE, FRAC, EXP, SIGN,
     WS, SP1, SYMBOL, SYMBOL_1, SYMBOL_2, SYMBOL_1_1, CHARACTER_1, DIGIT_1]"

text \<open>
  The allocation counters are above every live node and tree, so that what
  \<^verbatim>\<open>node_create\<close> and \<^verbatim>\<open>tree_create\<close> return is fresh.
\<close>

definition allocated :: "state \<Rightarrow> bool" where
  "allocated s \<longleftrightarrow>
     (\<forall>a. nodes s a \<noteq> None \<longrightarrow> a < node_next s) \<and>
     (\<forall>t. trees s t \<noteq> None \<longrightarrow> t < tree_next s)"


text \<open>
  Two stores to run the operations on.  The first holds the tree of \<^verbatim>\<open>gen_init__\<close> under the
  bound 0, a START node over a JSON leaf; the draws are 0 but for the draw 3, so that
  the pick passes the root and takes its child.  The second holds the same two nodes
  and a fresh node 2.
\<close>

definition mutation_input :: state where
  "mutation_input = snd (gen_init 0 ((empty_state (draws_from 3 [1]))\<lparr>max_depth := 0\<rparr>))"

definition replace_input :: state where
  "replace_input = snd (node_create 0 2 (snd (gen_start 0 0 0 (empty_state (\<lambda>_. 0)))))"

declare gen_node.simps [simp del]

section \<open>Running the program on a concrete store\<close>

text \<open>
  The defining equations at a store that is written out, for the simplifier: a call on a
  store that is still a variable is left alone, so that a run is evaluated once, call by
  call.
\<close>

lemmas run_simps =
  random_draw_def [of "\<lparr>nodes = N, node_next = k, trees = T, tree_next = t, max_depth = m, rnd = r, rpos = p\<rparr>"]
  map_rand_def [of _ "\<lparr>nodes = N, node_next = k, trees = T, tree_next = t, max_depth = m, rnd = r, rpos = p\<rparr>"]
  upd_node_def [of _ _ "\<lparr>nodes = N, node_next = k, trees = T, tree_next = t, max_depth = m, rnd = r, rpos = p\<rparr>"]
  upd_tree_def [of _ _ "\<lparr>nodes = N, node_next = k, trees = T, tree_next = t, max_depth = m, rnd = r, rpos = p\<rparr>"]
  node_create_def [of _ _ "\<lparr>nodes = N, node_next = k, trees = T, tree_next = t, max_depth = m, rnd = r, rpos = p\<rparr>"]
  node_set_val_def [of _ _ _ "\<lparr>nodes = N, node_next = k, trees = T, tree_next = t, max_depth = m, rnd = r, rpos = p\<rparr>"]
  node_create_with_val_def [of _ _ _ _ "\<lparr>nodes = N, node_next = k, trees = T, tree_next = t, max_depth = m, rnd = r, rpos = p\<rparr>"]
  set_subnode_def [of _ _ "\<lparr>nodes = N, node_next = k, trees = T, tree_next = t, max_depth = m, rnd = r, rpos = p\<rparr>"]
  inc_non_term_size_def [of _ "\<lparr>nodes = N, node_next = k, trees = T, tree_next = t, max_depth = m, rnd = r, rpos = p\<rparr>"]
  inc_recursion_edge_size_def [of _ "\<lparr>nodes = N, node_next = k, trees = T, tree_next = t, max_depth = m, rnd = r, rpos = p\<rparr>"]
  gen_node.simps [of _ _ _ _ "\<lparr>nodes = N, node_next = k, trees = T, tree_next = t, max_depth = m, rnd = r, rpos = p\<rparr>"]
  tree_create_def [of "\<lparr>nodes = N, node_next = k, trees = T, tree_next = t, max_depth = m, rnd = r, rpos = p\<rparr>"]
  gen_init_def [of _ "\<lparr>nodes = N, node_next = k, trees = T, tree_next = t, max_depth = m, rnd = r, rpos = p\<rparr>"]
  pick_first.simps(2) [of _ _ _ "\<lparr>nodes = N, node_next = k, trees = T, tree_next = t, max_depth = m, rnd = r, rpos = p\<rparr>"]
  pick_node.simps(2) [of _ _ "\<lparr>nodes = N, node_next = k, trees = T, tree_next = t, max_depth = m, rnd = r, rpos = p\<rparr>"]
  clone_subnodes.simps(2) [of _ _ _ _ "\<lparr>nodes = N, node_next = k, trees = T, tree_next = t, max_depth = m, rnd = r, rpos = p\<rparr>"]
  node_clone.simps(2) [of _ _ "\<lparr>nodes = N, node_next = k, trees = T, tree_next = t, max_depth = m, rnd = r, rpos = p\<rparr>"]
  tree_clone_def [of _ _ "\<lparr>nodes = N, node_next = k, trees = T, tree_next = t, max_depth = m, rnd = r, rpos = p\<rparr>"]
  free_subnodes.simps(2) [of _ _ _ "\<lparr>nodes = N, node_next = k, trees = T, tree_next = t, max_depth = m, rnd = r, rpos = p\<rparr>"]
  node_free.simps(2) [of _ _ "\<lparr>nodes = N, node_next = k, trees = T, tree_next = t, max_depth = m, rnd = r, rpos = p\<rparr>"]
  replace_in_subnodes.simps(2) [of _ _ _ _ _ _ _ "\<lparr>nodes = N, node_next = k, trees = T, tree_next = t, max_depth = m, rnd = r, rpos = p\<rparr>"]
  node_replace_subnode.simps(2) [of _ _ _ _ "\<lparr>nodes = N, node_next = k, trees = T, tree_next = t, max_depth = m, rnd = r, rpos = p\<rparr>"]
  random_mutation_pick_def [of _ _ "\<lparr>nodes = N, node_next = k, trees = T, tree_next = t, max_depth = m, rnd = r, rpos = p\<rparr>"]
  random_mutation_replace_def [of _ _ _ _ "\<lparr>nodes = N, node_next = k, trees = T, tree_next = t, max_depth = m, rnd = r, rpos = p\<rparr>"]
  random_mutation_def [of _ _ _ "\<lparr>nodes = N, node_next = k, trees = T, tree_next = t, max_depth = m, rnd = r, rpos = p\<rparr>"]
  for N k T t m r p

lemmas run_gen_subnodes =
  gen_subnodes.simps(2) [of _ _ _ _ _ _ _ "\<lparr>nodes = N, node_next = k, trees = T, tree_next = t, max_depth = m, rnd = r, rpos = p\<rparr>"]
  gen_subnodes.simps(3) [of _ _ _ _ _ _ "\<lparr>nodes = N, node_next = k, trees = T, tree_next = t, max_depth = m, rnd = r, rpos = p\<rparr>"]
  gen_subnodes.simps(4) [of _ _ _ _ _ _ "\<lparr>nodes = N, node_next = k, trees = T, tree_next = t, max_depth = m, rnd = r, rpos = p\<rparr>"]
  for N k T t m r p

lemmas run_fuel =
  pick_node.simps(2) [of "pred_numeral f" _ "\<lparr>nodes = N, node_next = k, trees = T, tree_next = t, max_depth = m, rnd = r, rpos = p\<rparr>", folded numeral_eq_Suc]
  node_clone.simps(2) [of "pred_numeral f" _ "\<lparr>nodes = N, node_next = k, trees = T, tree_next = t, max_depth = m, rnd = r, rpos = p\<rparr>", folded numeral_eq_Suc]
  node_free.simps(2) [of "pred_numeral f" _ "\<lparr>nodes = N, node_next = k, trees = T, tree_next = t, max_depth = m, rnd = r, rpos = p\<rparr>", folded numeral_eq_Suc]
  node_replace_subnode.simps(2) [of "pred_numeral f" _ _ _ "\<lparr>nodes = N, node_next = k, trees = T, tree_next = t, max_depth = m, rnd = r, rpos = p\<rparr>", folded numeral_eq_Suc]
  for f N k T t m r p

lemmas run_consts = gen_subnodes.simps(1) pick_first.simps(1) clone_subnodes.simps(1)
  free_subnodes.simps(1) replace_in_subnodes.simps(1) pick_node.simps(1) node_clone.simps(1)
  node_free.simps(1) node_replace_subnode.simps(1) empty_state_def draws_from_def TERM_NODE_def gen_funcs_def gen_start_def
  gen_json_def

lemmas run_del = gen_subnodes.simps(2,3,4) pick_first.simps(2) clone_subnodes.simps(2)
  free_subnodes.simps(2) replace_in_subnodes.simps(2) pick_node.simps(2)
  node_clone.simps(2) node_free.simps(2) node_replace_subnode.simps(2)


section \<open>The store after a generator run\<close>

lemma sub_region_refl: "sub_region node s s"
  by (auto simp: sub_region_def)

lemma sub_region_trans:
  assumes "sub_region node s s1" and "sub_region node s1 s2" and "node < node_next s"
  shows "sub_region node s s2"
  unfolding sub_region_def
proof (intro conjI allI impI)
  show "node_next s \<le> node_next s2" "trees s2 = trees s" "tree_next s2 = tree_next s"
    "max_depth s2 = max_depth s" "rnd s2 = rnd s"
    using assms by (auto simp: sub_region_def)
next
  fix a assume "(a < node_next s \<or> node_next s2 \<le> a) \<and> a \<noteq> node"
  then show "nodes s2 a = nodes s a"
    using assms unfolding sub_region_def
    by (metis le_trans less_le_trans)
next
  fix a assume a: "node_next s \<le> a \<and> a < node_next s2"
  show "\<exists>n. nodes s2 a = Some n \<and> parent n = None \<and>
             (\<forall>c \<in> set (subnodes n). a < c \<and> c < node_next s2)"
  proof (cases "a < node_next s1")
    case True
    with a assms(1) obtain n where n: "nodes s1 a = Some n" "parent n = None"
        "\<forall>c \<in> set (subnodes n). a < c \<and> c < node_next s1"
      unfolding sub_region_def by blast
    from a assms(3) have "a \<noteq> node" by simp
    with True assms(2) have "nodes s2 a = nodes s1 a"
      unfolding sub_region_def by blast
    moreover have "node_next s1 \<le> node_next s2"
      using assms(2) by (simp add: sub_region_def)
    ultimately show ?thesis using n by fastforce
  next
    case False
    with a assms(2) show ?thesis
      unfolding sub_region_def by (meson not_less)
  qed
next
  fix n assume n: "nodes s node = Some n"
  with assms(1) obtain n1 cs1 where n1: "nodes s1 node = Some n1" "node_id n1 = node_id n"
      "parent n1 = parent n" "val_buf n1 = val_buf n" "val_len n1 = val_len n"
      "subnodes n1 = subnodes n @ cs1" "\<forall>c \<in> set cs1. node_next s \<le> c \<and> c < node_next s1"
    unfolding sub_region_def by blast
  with assms(2) obtain n2 cs2 where n2: "nodes s2 node = Some n2" "node_id n2 = node_id n1"
      "parent n2 = parent n1" "val_buf n2 = val_buf n1" "val_len n2 = val_len n1"
      "subnodes n2 = subnodes n1 @ cs2" "\<forall>c \<in> set cs2. node_next s1 \<le> c \<and> c < node_next s2"
    unfolding sub_region_def by blast
  have le: "node_next s \<le> node_next s1" "node_next s1 \<le> node_next s2"
    using assms by (auto simp: sub_region_def)
  have "\<forall>c \<in> set (cs1 @ cs2). node_next s \<le> c \<and> c < node_next s2"
    using n1(7) n2(7) le by fastforce
  with n1 n2 show "\<exists>n'. nodes s2 node = Some n' \<and> node_id n' = node_id n \<and> parent n' = parent n \<and>
              val_buf n' = val_buf n \<and> val_len n' = val_len n \<and>
              (\<exists>cs. subnodes n' = subnodes n @ cs \<and>
                    (\<forall>c \<in> set cs. node_next s \<le> c \<and> c < node_next s2))"
    by (intro exI [of _ n2] conjI exI [of _ "cs1 @ cs2"]) simp_all
qed


lemma gen_region_create_with_val:
  assumes "node_create_with_val init i str l s = (c, s1)"
  shows "c = node_next s \<and> node_next s1 = c + 1 \<and> gen_region s s1"
  using assms
  by (auto simp: node_create_with_val_def node_create_def node_set_val_def upd_node_def
      gen_region_def)

lemma sub_region_attach:
  assumes "gen_region s s1" and "node < node_next s" and "node_next s \<le> c" and "c < node_next s1"
    and "\<And>n. node_id (f n) = node_id n \<and> parent (f n) = parent n \<and> val_buf (f n) = val_buf n \<and>
           val_len (f n) = val_len n \<and> subnodes (f n) = subnodes n"
  shows "sub_region node s (set_subnode node c (upd_node node f s1))"
  unfolding sub_region_def
proof (intro conjI allI impI)
  let ?s2 = "set_subnode node c (upd_node node f s1)"
  have nx: "node_next ?s2 = node_next s1"
    by (simp add: set_subnode_def upd_node_def)
  have other: "\<And>a. a \<noteq> node \<Longrightarrow> nodes ?s2 a = nodes s1 a"
    by (simp add: set_subnode_def upd_node_def)
  show "node_next s \<le> node_next ?s2" "trees ?s2 = trees s" "tree_next ?s2 = tree_next s"
    "max_depth ?s2 = max_depth s" "rnd ?s2 = rnd s"
    using assms(1) by (auto simp: gen_region_def set_subnode_def upd_node_def)
  {
    fix a assume "(a < node_next s \<or> node_next ?s2 \<le> a) \<and> a \<noteq> node"
    then show "nodes ?s2 a = nodes s a"
      using assms(1) other nx by (auto simp: gen_region_def)
  }
  {
    fix a assume a: "node_next s \<le> a \<and> a < node_next ?s2"
    with assms(2) have "a \<noteq> node" by simp
    with a assms(1) show "\<exists>n. nodes ?s2 a = Some n \<and> parent n = None \<and>
             (\<forall>c \<in> set (subnodes n). a < c \<and> c < node_next ?s2)"
      using other nx by (auto simp: gen_region_def)
  }
  {
    fix n assume "nodes s node = Some n"
    with assms(1,2) have "nodes s1 node = Some n"
      by (auto simp: gen_region_def)
    then have "nodes ?s2 node = Some ((f n)\<lparr>subnodes := subnodes (f n) @ [c]\<rparr>)"
      by (simp add: set_subnode_def upd_node_def)
    then show "\<exists>n'. nodes ?s2 node = Some n' \<and> node_id n' = node_id n \<and> parent n' = parent n \<and>
              val_buf n' = val_buf n \<and> val_len n' = val_len n \<and>
              (\<exists>cs. subnodes n' = subnodes n @ cs \<and>
                    (\<forall>c \<in> set cs. node_next s \<le> c \<and> c < node_next ?s2))"
      using assms(3,4,5) nx by auto
  }
qed

lemma upd_node_upd_node: "upd_node a g (upd_node a f s) = upd_node a (\<lambda>n. g (f n)) s"
  by (simp add: upd_node_def option.map_comp comp_def)

lemma sub_region_gen_child:
  assumes "gen_region s s1" and "node < node_next s" and "node_next s < node_next s1"
  shows "sub_region node s (set_subnode node (node_next s) (inc_non_term_size node s1))"
    and "sub_region node s
           (set_subnode node (node_next s)
              (inc_recursion_edge_size node (inc_non_term_size node s1)))"
  unfolding inc_non_term_size_def inc_recursion_edge_size_def upd_node_upd_node
  using assms by (intro sub_region_attach; simp)+

lemma gen_region_leaf:
  assumes "node_create init i s = (a, s1)" and "map_rand k s1 = (v, s2)"
  shows "a = node_next s \<and> a < node_next (node_set_val a str l s2) \<and>
         gen_region s (node_set_val a str l s2) \<and>
         (\<exists>n. nodes (node_set_val a str l s2) a = Some n \<and> node_id n = i)"
  using assms
  by (auto simp: node_create_def map_rand_def random_draw_def node_set_val_def upd_node_def
      gen_region_def)

lemma gen_region_expand:
  assumes "node_create init i s = (a, s1)" and "map_rand k s1 = (v, s2)"
    and "sub_region a s2 s'"
  shows "a = node_next s \<and> a < node_next s' \<and> gen_region s s' \<and>
         (\<exists>n. nodes s' a = Some n \<and> node_id n = i)"
proof -
  have a: "a = node_next s" and nx: "node_next s2 = a + 1"
    and n2: "nodes s2 = (nodes s)(a \<mapsto> \<lparr>node_id = i, recursion_edge_size = 0,
        non_term_size = init, val_buf = None, val_len = 0, parent = None, subnodes = []\<rparr>)"
    and same: "trees s2 = trees s" "tree_next s2 = tree_next s" "max_depth s2 = max_depth s"
      "rnd s2 = rnd s"
    using assms(1,2) by (auto simp: node_create_def map_rand_def random_draw_def)
  from assms(3) have le: "node_next s2 \<le> node_next s'"
    by (simp add: sub_region_def)
  from assms(3) n2 obtain n' cs where n': "nodes s' a = Some n'" "node_id n' = i"
      "parent n' = None" "subnodes n' = cs" "\<forall>c \<in> set cs. node_next s2 \<le> c \<and> c < node_next s'"
    unfolding sub_region_def by fastforce
  have "gen_region s s'"
    unfolding gen_region_def
  proof (intro conjI allI impI)
    show "node_next s \<le> node_next s'" using a nx le by simp
    show "trees s' = trees s" "tree_next s' = tree_next s" "max_depth s' = max_depth s"
      "rnd s' = rnd s"
      using assms(3) same by (auto simp: sub_region_def)
  next
    fix b assume "b < node_next s \<or> node_next s' \<le> b"
    then have "(b < node_next s2 \<or> node_next s' \<le> b) \<and> b \<noteq> a"
      using a nx le by auto
    with assms(3) have "nodes s' b = nodes s2 b"
      unfolding sub_region_def by blast
    also have "\<dots> = nodes s b"
      using \<open>(b < node_next s2 \<or> node_next s' \<le> b) \<and> b \<noteq> a\<close> by (simp add: n2)
    finally show "nodes s' b = nodes s b" .
  next
    fix b assume b: "node_next s \<le> b \<and> b < node_next s'"
    show "\<exists>n. nodes s' b = Some n \<and> parent n = None \<and>
            (\<forall>c \<in> set (subnodes n). b < c \<and> c < node_next s')"
    proof (cases "b = a")
      case True
      with n' nx show ?thesis by auto
    next
      case False
      with b a nx have "node_next s2 \<le> b \<and> b < node_next s'" by simp
      with assms(3) show ?thesis
        unfolding sub_region_def by blast
    qed
  qed
  with a nx le n' show ?thesis by auto
qed

lemma gen_node_region_aux:
  "(\<forall>a s'. gen_node init md r dep s = (a, s') \<longrightarrow>
      a = node_next s \<and> a < node_next s' \<and> gen_region s s' \<and>
      (\<exists>n. nodes s' a = Some n \<and> node_id n = rule_id r))"
  "(node < node_next s \<longrightarrow> sub_region node s (gen_subnodes init md dep node syms s))"
proof (induction init md r dep s and init md dep node syms s rule: gen_node_gen_subnodes.induct)
  case (1 init md r dep s)
  obtain a s1 where c: "node_create init (rule_id r) s = (a, s1)"
    by fastforce
  show ?case
  proof (cases "md < dep")
    case True
    obtain v s2 where v: "map_rand (pool_n r) s1 = (v, s2)"
      by fastforce
    from gen_region_leaf [OF c v, of "pool r ! v" "pool_l r ! v"] True show ?thesis
      by (auto simp: gen_node.simps c v)
  next
    case False
    obtain v s2 where v: "map_rand (alt_n r) s1 = (v, s2)"
      by fastforce
    let ?syms = "if v < length (alts r) then alts r ! v else []"
    have "node_next s2 = a + 1"
      using c v by (auto simp: node_create_def map_rand_def random_draw_def)
    with "1.IH" [OF c [symmetric] False v [symmetric]]
    have "sub_region a s2 (gen_subnodes init md dep a ?syms s2)"
      by simp
    from gen_region_expand [OF c v this] False show ?thesis
      by (auto simp: gen_node.simps c v)
  qed
next
  case (2 init md dep node s)
  show ?case by (simp add: sub_region_refl)
next
  case (3 init md dep node str l syms s)
  show ?case
  proof
    assume lt: "node < node_next s"
    obtain c s1 where c: "node_create_with_val init TERM_NODE str l s = (c, s1)"
      by fastforce
    from gen_region_create_with_val [OF c]
    have r: "c = node_next s" "node_next s1 = c + 1" "gen_region s s1" by auto
    have "sub_region node s (set_subnode node c (upd_node node (\<lambda>n. n) s1))"
      using r lt by (intro sub_region_attach) auto
    moreover have "upd_node node (\<lambda>n. n) s1 = s1"
      by (simp add: upd_node_def option.map_ident)
    ultimately have a: "sub_region node s (set_subnode node c s1)" by simp
    have lt': "node < node_next (set_subnode node c s1)"
      using lt r by (simp add: set_subnode_def upd_node_def)
    from "3.IH" [OF c [symmetric]] lt'
    have "sub_region node (set_subnode node c s1)
            (gen_subnodes init md dep node syms (set_subnode node c s1))" by simp
    from sub_region_trans [OF a this lt] show
      "sub_region node s (gen_subnodes init md dep node (Term str l # syms) s)"
      by (simp add: c)
  qed
next
  case (4 init md dep node r syms s)
  show ?case
  proof
    assume lt: "node < node_next s"
    obtain c s1 where c: "gen_node init md r (dep + 1) s = (c, s1)"
      by fastforce
    from "4.IH"(1) c have r: "c = node_next s" "c < node_next s1" "gen_region s s1"
      by auto
    let ?s2 = "set_subnode node c (inc_non_term_size node s1)"
    have a: "sub_region node s ?s2"
      using sub_region_gen_child(1) [OF r(3) lt] r by simp
    have lt': "node < node_next ?s2"
      using lt r by (simp add: set_subnode_def inc_non_term_size_def upd_node_def)
    from "4.IH"(2) [OF c [symmetric]] lt'
    have "sub_region node ?s2 (gen_subnodes init md dep node syms ?s2)" by simp
    from sub_region_trans [OF a this lt] show
      "sub_region node s (gen_subnodes init md dep node (NonTerm r # syms) s)"
      by (simp add: c)
  qed
next
  case (5 init md dep node r syms s)
  show ?case
  proof
    assume lt: "node < node_next s"
    obtain c s1 where c: "gen_node init md r (dep + 1) s = (c, s1)"
      by fastforce
    from "5.IH"(1) c have r: "c = node_next s" "c < node_next s1" "gen_region s s1"
      by auto
    let ?s2 = "set_subnode node c (inc_recursion_edge_size node (inc_non_term_size node s1))"
    have a: "sub_region node s ?s2"
      using sub_region_gen_child(2) [OF r(3) lt] r by simp
    have lt': "node < node_next ?s2"
      using lt r
      by (simp add: set_subnode_def inc_non_term_size_def inc_recursion_edge_size_def
          upd_node_def)
    from "5.IH"(2) [OF c [symmetric]] lt'
    have "sub_region node ?s2 (gen_subnodes init md dep node syms ?s2)" by simp
    from sub_region_trans [OF a this lt] show
      "sub_region node s (gen_subnodes init md dep node (RecNonTerm r # syms) s)"
      by (simp add: c)
  qed
qed


lemma gen_node_region:
  assumes "gen_node init md r dep s = (a, s')"
  shows "a = node_next s" and "a < node_next s'" and "gen_region s s'"
    and "\<exists>n. nodes s' a = Some n \<and> node_id n = rule_id r"
  using gen_node_region_aux(1) [of init md r dep s] assms by blast+

lemma gen_node_single_child:
  assumes "\<not> md < dep" and "alt_n r = 1" and "alts r = [[NonTerm r']]"
    and "gen_node init md r dep s = (a, s')"
  shows "\<exists>s2 s3. gen_node init md r' (dep + 1) s2 = (a + 1, s3) \<and>
           nodes s' a = Some \<lparr>node_id = rule_id r, recursion_edge_size = 0,
             non_term_size = init + 1, val_buf = None, val_len = 0, parent = None,
             subnodes = [a + 1]\<rparr> \<and>
           nodes s' (a + 1) = nodes s3 (a + 1)"
proof -
  obtain a0 s1 where c: "node_create init (rule_id r) s = (a0, s1)"
    by fastforce
  obtain v s2 where v: "map_rand (alt_n r) s1 = (v, s2)"
    by fastforce
  have v0: "v = 0"
    using v assms(2) by (auto simp: map_rand_def random_draw_def)
  obtain c3 s3 where g: "gen_node init md r' (dep + 1) s2 = (c3, s3)"
    by fastforce
  have a0: "a0 = node_next s" and nx: "node_next s2 = a0 + 1"
    and n2: "nodes s2 a0 = Some \<lparr>node_id = rule_id r, recursion_edge_size = 0,
             non_term_size = init, val_buf = None, val_len = 0, parent = None,
             subnodes = []\<rparr>"
    using c v by (auto simp: node_create_def map_rand_def random_draw_def)
  from gen_node_region [OF g] nx have c3: "c3 = a0 + 1" and reg: "gen_region s2 s3"
    by auto
  from reg nx have n3: "nodes s3 a0 = nodes s2 a0"
    by (simp add: gen_region_def)
  have "gen_node init md r dep s =
      (a0, gen_subnodes init md dep a0 (if v < length (alts r) then alts r ! v else []) s2)"
    using assms(1) by (subst gen_node.simps) (simp add: c v)
  with assms(3,4) have res: "a = a0" "s' = set_subnode a0 c3 (inc_non_term_size a0 s3)"
    by (auto simp: v0 g)
  show ?thesis
    using g c3 n2 n3 res
    by (intro exI [of _ s2] exI [of _ s3])
      (simp add: set_subnode_def inc_non_term_size_def upd_node_def)
qed

section \<open>The literal pools\<close>

lemma pool_n_length: "pool_n r = length (pool r)"
  by (cases r) simp_all

lemma pool_l_lengths: "pool_l r = map length (pool r)"
  by (cases r) (simp_all add: eval_nat_numeral)

lemma pool_nonempty: "0 < length (pool r)"
  by (cases r) simp_all

lemma map_rand_less: "0 < v \<Longrightarrow> map_rand v s = (x, s') \<Longrightarrow> x < v"
  by (auto simp: map_rand_def random_draw_def)

lemma gen_node_past_bound:
  assumes "md < dep"
  shows "gen_node init md r dep s =
     (node_next s,
      node_set_val (node_next s) (pool r ! (rnd s (rpos s) mod pool_n r))
        (pool_l r ! (rnd s (rpos s) mod pool_n r))
        (snd (map_rand (pool_n r) (snd (node_create init (rule_id r) s)))))"
  using assms
  by (simp add: gen_node.simps node_create_def map_rand_def random_draw_def)

text \<open>
  C10.  Past the depth bound a generator emits a pool terminal: for every rule \<open>r\<close> and every
  depth above \<open>max_depth\<close>, the node returned by the rule's generator has no children, its
  value is an entry of the rule's pool and \<open>val_len\<close> is that entry's byte length; and the
  length array of every pool pairs each entry with its exact byte length.
\<close>

theorem gen_past_bound_pool_terminal:
  assumes "md < dep" and "gen_node init md r dep s = (node, s')"
  shows "(\<exists>n i. nodes s' node = Some n \<and> subnodes n = [] \<and> node_id n = rule_id r \<and>
            i < length (pool r) \<and> val_buf n = Some (pool r ! i) \<and>
            val_len n = length (pool r ! i) \<and> pool_l r ! i = length (pool r ! i)) \<and>
         length (pool_l r) = length (pool r) \<and>
         (\<forall>j < length (pool r). pool_l r ! j = length (pool r ! j))"
proof -
  let ?i = "rnd s (rpos s) mod pool_n r"
  let ?n = "\<lparr>node_id = rule_id r, recursion_edge_size = 0, non_term_size = init,
       val_buf = Some (pool r ! ?i), val_len = length (pool r ! ?i), parent = None,
       subnodes = []\<rparr>"
  have i: "?i < length (pool r)"
    using pool_nonempty [of r] by (simp add: pool_n_length)
  have l: "pool_l r ! ?i = length (pool r ! ?i)"
    using i by (simp add: pool_l_lengths)
  have "nodes s' node = Some ?n"
    using assms(2) l
    by (auto simp: gen_node_past_bound [OF assms(1)] node_set_val_def upd_node_def
        node_create_def map_rand_def random_draw_def)
  with i l have "\<exists>n i. nodes s' node = Some n \<and> subnodes n = [] \<and> node_id n = rule_id r \<and>
           i < length (pool r) \<and> val_buf n = Some (pool r ! i) \<and>
           val_len n = length (pool r ! i) \<and> pool_l r ! i = length (pool r ! i)"
    by (intro exI [of _ ?n] exI [of _ ?i]) simp
  then show ?thesis
    by (simp add: pool_l_lengths)
qed

theorem gen_past_bound_pool_terminal_witness:
  "(1::int) < 2 \<and>
   fst (gen_member 0 1 2 (empty_state (\<lambda>_. 0))) = 0 \<and>
   nodes (snd (gen_member 0 1 2 (empty_state (\<lambda>_. 0)))) 0 = Some
     \<lparr>node_id = 7, recursion_edge_size = 0, non_term_size = 0,
      val_buf = Some [CHR 0x22, CHR 0x22, CHR '':'', CHR ''f'', CHR ''a'', CHR ''l'', CHR ''s'',
        CHR ''e''],
      val_len = 8, parent = None, subnodes = []\<rparr> \<and>
   (\<exists>n i. nodes (snd (gen_member 0 1 2 (empty_state (\<lambda>_. 0))))
             (fst (gen_member 0 1 2 (empty_state (\<lambda>_. 0)))) = Some n \<and>
          subnodes n = [] \<and> node_id n = rule_id MEMBER \<and> i < length (pool MEMBER) \<and>
          val_buf n = Some (pool MEMBER ! i) \<and> val_len n = length (pool MEMBER ! i) \<and>
          pool_l MEMBER ! i = length (pool MEMBER ! i)) \<and>
   pool_l MEMBER = [8, 7, 7]"
proof -
  let ?s0 = "empty_state (\<lambda>_. 0)"
  have h1: "(1::int) < 2"
    by simp
  have h2: "gen_node 0 1 MEMBER 2 ?s0 = (fst (gen_member 0 1 2 ?s0), snd (gen_member 0 1 2 ?s0))"
    by (simp add: gen_member_def)
  have run: "gen_member 0 1 2 ?s0 =
      (0, \<lparr>nodes = (\<lambda>_. None)(0 \<mapsto>
             \<lparr>node_id = 7, recursion_edge_size = 0, non_term_size = 0,
              val_buf = Some [CHR 0x22, CHR 0x22, CHR '':'', CHR ''f'', CHR ''a'', CHR ''l'',
                CHR ''s'', CHR ''e''],
              val_len = 8, parent = None, subnodes = []\<rparr>),
           node_next = 1, trees = (\<lambda>_. None), tree_next = 0, max_depth = - 1,
           rnd = (\<lambda>_. 0), rpos = 1\<rparr>)"
    by (simp add: gen_member_def gen_node.simps node_create_def map_rand_def random_draw_def
        node_set_val_def upd_node_def empty_state_def)
  from gen_past_bound_pool_terminal [OF h1 h2] h1 show ?thesis
    by (simp add: run)
qed

section \<open>The size invariant\<close>

text \<open>
  C2.  The claim: in every tree built by the generators, \<open>non_term_size\<close> of a node is 1 (if
  the node is a non-terminal) plus the sum of its children's \<open>non_term_size\<close>.  The
  generators add 1 per generated child instead (\<^verbatim>\<open>node->non_term_size += 1\<close>), whatever the
  child's own count is.  For every initial count \<open>init\<close> that \<^verbatim>\<open>node_create\<close> may store, every
  bound of at least 1 and all draws, the root that \<^verbatim>\<open>gen_start(0)\<close> returns violates the
  invariant: it and its only child both hold \<open>init + 1\<close>.
\<close>

theorem gen_start_breaks_size_invariant:
  assumes "1 \<le> md" and "gen_start init md 0 s = (a, s')"
  shows "\<not> size_invariant_at s' a"
proof -
  from assms(2) have g: "gen_node init md START 0 s = (a, s')"
    by (simp add: gen_start_def)
  have h0: "\<not> md < 0" and h1: "\<not> md < 1"
    using assms(1) by simp_all
  have "\<exists>s2 s3. gen_node init md JSON 1 s2 = (a + 1, s3) \<and>
           nodes s' a = Some \<lparr>node_id = rule_id START, recursion_edge_size = 0,
             non_term_size = init + 1, val_buf = None, val_len = 0, parent = None,
             subnodes = [a + 1]\<rparr> \<and>
           nodes s' (a + 1) = nodes s3 (a + 1)"
    using gen_node_single_child [OF h0 _ _ g, of JSON] by simp
  then obtain s2 s3 where j: "gen_node init md JSON 1 s2 = (a + 1, s3)"
    and na: "nodes s' a = Some \<lparr>node_id = rule_id START, recursion_edge_size = 0,
             non_term_size = init + 1, val_buf = None, val_len = 0, parent = None,
             subnodes = [a + 1]\<rparr>"
    and nc: "nodes s' (a + 1) = nodes s3 (a + 1)"
    by blast
  have "\<exists>m. nodes s3 (a + 1) = Some m \<and> non_term_size m = init + 1"
    using gen_node_single_child [OF h1 _ _ j, of ELEMENT] by auto
  then obtain m where "nodes s' (a + 1) = Some m" "non_term_size m = init + 1"
    using nc by auto
  with na show ?thesis
    by (simp add: size_invariant_at_def child_sizes_def)
qed

theorem gen_start_breaks_size_invariant_witness:
  "(1::int) \<le> 1 \<and> fst (gen_start 0 1 0 (empty_state (\<lambda>_. 0))) = 0 \<and>
   map (\<lambda>a. map_option non_term_size (nodes (snd (gen_start 0 1 0 (empty_state (\<lambda>_. 0)))) a))
     [0, 1, 2] = [Some 1, Some 1, Some 0] \<and>
   \<not> size_invariant_at (snd (gen_start 0 1 0 (empty_state (\<lambda>_. 0)))) 0"
proof -
  have h1: "(1::int) \<le> 1" by simp
  have e: "fst (gen_start 0 1 0 (empty_state (\<lambda>_. 0))) = 0 \<and>
    map (\<lambda>a. map_option non_term_size (nodes (snd (gen_start 0 1 0 (empty_state (\<lambda>_. 0)))) a))
     [0, 1, 2] = [Some 1, Some 1, Some 0]"
    by (simp add: run_simps run_gen_subnodes run_consts run_fuel del: run_del)
  have h2: "gen_start 0 1 0 (empty_state (\<lambda>_. 0)) =
      (0, snd (gen_start 0 1 0 (empty_state (\<lambda>_. 0))))"
    using e by (simp add: prod_eq_iff)
  from gen_start_breaks_size_invariant [OF h1 h2] e show ?thesis
    by simp
qed

section \<open>Parent back-references\<close>

lemma descendant_in_region:
  assumes "descendant s' a b" and "gen_region s s'" and "node_next s \<le> a" and "a < node_next s'"
  shows "a < b \<and> b < node_next s'"
  using assms
proof (induction rule: descendant.induct)
  case (child a n c)
  then show ?case by (fastforce simp: gen_region_def)
next
  case (below a n c d)
  from below.hyps(1,2) below.prems have "a < c \<and> c < node_next s'"
    by (fastforce simp: gen_region_def)
  with below show ?case by fastforce
qed

text \<open>
  How far it goes: after any generator, the \<open>parent\<close> of the node it returns and of every
  node below it is still what \<^verbatim>\<open>node_create\<close> stored, so no child of a generated tree
  names its owner.
\<close>

lemma gen_node_parents_unset:
  assumes "gen_node init md r dep s = (a, s')"
  shows "(\<exists>n. nodes s' a = Some n \<and> parent n = None) \<and>
         (\<forall>b. descendant s' a b \<longrightarrow> (\<exists>m. nodes s' b = Some m \<and> parent m = None))"
proof -
  from gen_node_region [OF assms]
  have a: "a = node_next s" "a < node_next s'" and reg: "gen_region s s'"
    by auto
  have all: "\<And>b. node_next s \<le> b \<Longrightarrow> b < node_next s' \<Longrightarrow>
      \<exists>m. nodes s' b = Some m \<and> parent m = None"
    using reg unfolding gen_region_def by blast
  show ?thesis
  proof (intro conjI allI impI)
    show "\<exists>n. nodes s' a = Some n \<and> parent n = None"
      using all [of a] a by simp
  next
    fix b assume "descendant s' a b"
    from descendant_in_region [OF this reg] a have "node_next s \<le> b \<and> b < node_next s'"
      by simp
    then show "\<exists>m. nodes s' b = Some m \<and> parent m = None"
      using all by simp
  qed
qed

text \<open>
  C6: the generators store a child in its slot and never write its \<open>parent\<close>, although
  tree.h documents the field as the parent node and \<^verbatim>\<open>random_mutation\<close> reads an absent
  parent as "the picked node is the root".  In the tree of \<^verbatim>\<open>gen_start(0)\<close> under the
  bound 1 the child of the root does not name the root as its parent.
\<close>

theorem gen_start_parents_not_wired:
  "\<not> parents_wired_at (snd (gen_start 0 1 0 (empty_state (\<lambda>_. 0)))) 0"
  by (simp add: parents_wired_at_def run_simps run_gen_subnodes run_consts run_fuel del: run_del)

section \<open>Node selection\<close>

text \<open>
  C1.  The claim: every non-terminal node is picked with the same probability and the pick
  is never \<^verbatim>\<open>NULL\<close>.  \<^verbatim>\<open>_pick_node\<close> flips a coin at each node instead.  On the chain of
  three nodes that \<^verbatim>\<open>gen_start(0)\<close> builds under the bound 1 (the nodes 0, 1 and 2; the
  generator takes the draws 0 to 2, the pick the draws 3 to 5), the eight parities of the
  three draws of the pick give the root four times, its child twice, the grandchild once
  and \<^verbatim>\<open>NULL\<close> once.
\<close>

theorem pick_node_outcomes:
  "map (\<lambda>xs. map_sum id fst
          (pick_node 3 0 (snd (gen_start 0 1 0 (empty_state (draws_from 3 xs))))))
     [[1, 1, 1], [1, 1, 0], [1, 0, 1], [1, 0, 0], [0, 1, 1], [0, 1, 0], [0, 0, 1], [0, 0, 0]] =
   [Inr (Some 0), Inr (Some 0), Inr (Some 0), Inr (Some 0), Inr (Some 1), Inr (Some 1),
    Inr (Some 2), Inr None]"
  by (simp add: run_simps run_gen_subnodes run_consts run_fuel del: run_del)

section \<open>Dispatch on the picked node\<close>

text \<open>
  C5.  The claim: the node that \<^verbatim>\<open>random_mutation\<close> picks has a nonzero id.  \<^verbatim>\<open>_pick_node\<close>
  returns terminal children as well.  The tree of \<^verbatim>\<open>gen_init__\<close> under the bound 3 with all
  draws 0 has a \<^verbatim>\<open>TERM_NODE\<close> child (the literal of a value); when the draws of the pick
  are even down to that child and odd there, the picked node has id 0 and the dispatch
  calls the null entry of \<^verbatim>\<open>gen_funcs\<close>.
\<close>

theorem random_mutation_null_call:
  "(case gen_init 0 ((empty_state (draws_from 11 [1]))\<lparr>max_depth := 3\<rparr>) of
      (tree, s) \<Rightarrow>
        (map_sum id fst (random_mutation 0 6 tree s),
         map_sum id (\<lambda>((mt, node), s1). map_option node_id (nodes s1 node))
           (random_mutation_pick 6 tree s))) =
   (Inl NullCall, Inr (Some 0))"
  by (simp add: run_simps run_gen_subnodes run_consts run_fuel del: run_del)

section \<open>Replacing a subnode\<close>

lemma descendant_cases:
  assumes "descendant s a d"
  shows "\<exists>n c. nodes s a = Some n \<and> c \<in> set (subnodes n) \<and> (d = c \<or> descendant s c d)"
  using assms by (cases rule: descendant.cases) auto

lemma replace_in_subnodes_sound:
  assumes R: "\<And>c b s'. c \<in> set cs \<Longrightarrow> R c s = Inr (b, s') \<Longrightarrow>
        (\<not> b \<longrightarrow> s' = s \<and> \<not> descendant s c subnode) \<and>
        (b \<longrightarrow> nodes s new_subnode \<noteq> None \<and>
           (\<exists>q j. found_at s c subnode q j \<and> s' = replaced_at q j new_subnode s))"
    and n: "nodes s root_node = Some n" "subnodes n = pre @ cs" "length pre = i"
    and pre: "\<forall>x \<in> set pre. x \<noteq> subnode \<and> \<not> descendant s x subnode"
    and run: "replace_in_subnodes R root_node i cs subnode new_subnode s = Inr (b, s')"
  shows "(\<not> b \<longrightarrow> s' = s \<and> \<not> descendant s root_node subnode) \<and>
         (b \<longrightarrow> nodes s new_subnode \<noteq> None \<and>
            (\<exists>q j. found_at s root_node subnode q j \<and> s' = replaced_at q j new_subnode s))"
  using assms
proof (induction cs arbitrary: pre i)
  case Nil
  then have "b = False" "s' = s" and all: "\<forall>x \<in> set (subnodes n). x \<noteq> subnode \<and> \<not> descendant s x subnode"
    by auto
  moreover have "\<not> descendant s root_node subnode"
  proof
    assume "descendant s root_node subnode"
    from descendant_cases [OF this] Nil.prems(2) all show False by auto
  qed
  ultimately show ?case by simp
next
  case (Cons c cs)
  show ?case
  proof (cases "c = subnode")
    case True
    with Cons.prems(6) obtain m where m: "nodes s new_subnode = Some m"
      and res: "b = True" "s' = replaced_at root_node i new_subnode s"
      by (auto simp: replaced_at_def split: option.splits)
    have "found_at s root_node subnode root_node i"
      using Cons.prems(2,3,4,5) True
      by (auto simp: found_at_def list_all_iff nth_append)
    with m res show ?thesis by auto
  next
    case False
    show ?thesis
    proof (cases "R c s")
      case (Inl e)
      with False Cons.prems(6) show ?thesis by simp
    next
      case (Inr r)
      obtain b1 s1 where r: "r = (b1, s1)" by (cases r)
      from Cons.prems(1) [of c b1 s1] Inr r
      have c: "(\<not> b1 \<longrightarrow> s1 = s \<and> \<not> descendant s c subnode) \<and>
        (b1 \<longrightarrow> nodes s new_subnode \<noteq> None \<and>
           (\<exists>q j. found_at s c subnode q j \<and> s1 = replaced_at q j new_subnode s))"
        by simp
      show ?thesis
      proof (cases b1)
        case True
        with False Inr r Cons.prems(6) have res: "b = True" "s' = s1" by auto
        from c True obtain q j where q: "found_at s c subnode q j" "s1 = replaced_at q j new_subnode s"
          and nn: "nodes s new_subnode \<noteq> None"
          by auto
        have "c \<in> set (subnodes n)" using Cons.prems(3) by simp
        with q(1) Cons.prems(2) have "found_at s root_node subnode q j"
          by (auto simp: found_at_def intro: descendant.child descendant.below)
        with q(2) res nn show ?thesis by auto
      next
        case b1: False
        with c have s1: "s1 = s" and nd: "\<not> descendant s c subnode" by auto
        from False Inr r b1 s1 Cons.prems(6)
        have run': "replace_in_subnodes R root_node (i + 1) cs subnode new_subnode s = Inr (b, s')"
          by simp
        show ?thesis
        proof (rule Cons.IH [of "pre @ [c]" "i + 1"])
          show "subnodes n = (pre @ [c]) @ cs" using Cons.prems(3) by simp
          show "length (pre @ [c]) = i + 1" using Cons.prems(4) by simp
          show "\<forall>x \<in> set (pre @ [c]). x \<noteq> subnode \<and> \<not> descendant s x subnode"
            using Cons.prems(5) False nd by auto
        qed (use Cons.prems(1,2) run' in auto)
      qed
    qed
  qed
qed

lemma node_replace_subnode_sound:
  "node_replace_subnode fuel root_node subnode new_subnode s = Inr (b, s') \<Longrightarrow>
     (\<not> b \<longrightarrow> s' = s \<and> \<not> descendant s root_node subnode) \<and>
     (b \<longrightarrow> nodes s new_subnode \<noteq> None \<and>
        (\<exists>q j. found_at s root_node subnode q j \<and> s' = replaced_at q j new_subnode s))"
proof (induction fuel arbitrary: root_node b s')
  case 0
  then show ?case by simp
next
  case (Suc fuel)
  from Suc.prems obtain n where n: "nodes s root_node = Some n"
    and run: "replace_in_subnodes (\<lambda>c. node_replace_subnode fuel c subnode new_subnode)
        root_node 0 (subnodes n) subnode new_subnode s = Inr (b, s')"
    by (auto split: option.splits)
  show ?case
    by (rule replace_in_subnodes_sound [OF _ n _ _ _ run, of "[]"]) (use Suc.IH in auto)
qed




text \<open>
  On the store with the nodes 0 (START, over 1), 1 (JSON) and 2 (fresh): replacing 1
  by 2 under 0.
\<close>

lemmas run_inputs = mutation_input_def replace_input_def

lemma run_result: "map_sum id fst x = Inr a \<Longrightarrow> x = Inr (a, snd (projr x))"
  by (cases x) auto


section \<open>Freeing and picking\<close>

lemma nodes_only_refl: "nodes_only s s"
  by (simp add: nodes_only_def)

lemma nodes_only_trans: "nodes_only s s1 \<Longrightarrow> nodes_only s1 s2 \<Longrightarrow> nodes_only s s2"
  unfolding nodes_only_def by (metis state.update_convs(1) state.surjective state.select_convs(1))

lemma nodes_only_fields:
  assumes "nodes_only s s'"
  shows "node_next s' = node_next s" "trees s' = trees s" "tree_next s' = tree_next s"
    "max_depth s' = max_depth s" "rnd s' = rnd s" "rpos s' = rpos s"
  using assms unfolding nodes_only_def
  by (metis state.select_convs state.surjective state.update_convs(1))+

lemma nodes_only_upd_node: "nodes_only s (upd_node a f s)"
  by (simp add: nodes_only_def upd_node_def)

lemma nodes_only_nodes_update: "nodes_only s (s\<lparr>nodes := N\<rparr>)"
  by (simp add: nodes_only_def)

lemma descendant_mono:
  assumes "descendant s1 a b" and "\<And>x n. nodes s1 x = Some n \<Longrightarrow> nodes s x = Some n"
  shows "descendant s a b"
  using assms by (induction rule: descendant.induct) (auto intro: descendant.child descendant.below)

lemma free_subnodes_sound:
  assumes F: "\<And>c s s'. c \<in> set cs \<Longrightarrow> F c s = Inr s' \<Longrightarrow> freed_below s c s'"
    and run: "free_subnodes F cs s = Inr s'"
  shows "nodes_only s s' \<and>
     (\<forall>b. nodes s' b = nodes s b \<or>
        (nodes s' b = None \<and> (\<exists>c \<in> set cs. b = c \<or> descendant s c b)))"
  using assms
proof (induction cs arbitrary: s)
  case Nil
  then show ?case by (simp add: nodes_only_refl)
next
  case (Cons c cs)
  from Cons.prems(2) obtain s1 where s1: "F c s = Inr s1" and rest: "free_subnodes F cs s1 = Inr s'"
    by (auto split: sum.splits)
  from Cons.prems(1) [OF _ s1] have f1: "freed_below s c s1" by simp
  have ih: "nodes_only s1 s' \<and>
     (\<forall>b. nodes s' b = nodes s1 b \<or>
        (nodes s' b = None \<and> (\<exists>c \<in> set cs. b = c \<or> descendant s1 c b)))"
    by (rule Cons.IH [OF _ rest]) (use Cons.prems(1) in auto)
  have mono: "\<And>x n. nodes s1 x = Some n \<Longrightarrow> nodes s x = Some n"
    using f1 unfolding freed_below_def by (metis option.distinct(1))
  show ?case
  proof (intro conjI allI)
    show "nodes_only s s'"
      using f1 ih by (auto simp: freed_below_def intro: nodes_only_trans)
  next
    fix b
    from ih have "nodes s' b = nodes s1 b \<or>
        (nodes s' b = None \<and> (\<exists>c \<in> set cs. b = c \<or> descendant s1 c b))" by blast
    then show "nodes s' b = nodes s b \<or>
        (nodes s' b = None \<and> (\<exists>c \<in> set (c # cs). b = c \<or> descendant s c b))"
    proof
      assume eq: "nodes s' b = nodes s1 b"
      from f1 have "nodes s1 b = nodes s b \<or> (nodes s1 b = None \<and> (b = c \<or> descendant s c b))"
        unfolding freed_below_def by blast
      with eq show ?thesis by auto
    next
      assume "nodes s' b = None \<and> (\<exists>c \<in> set cs. b = c \<or> descendant s1 c b)"
      then show ?thesis
        using descendant_mono [OF _ mono] by auto
    qed
  qed
qed

lemma node_free_sound:
  "node_free fuel a s = Inr s' \<Longrightarrow> freed_below s a s'"
proof (induction fuel arbitrary: a s s')
  case 0
  then show ?case by simp
next
  case (Suc fuel)
  from Suc.prems obtain n s1 where n: "nodes s a = Some n"
    and run: "free_subnodes (node_free fuel) (subnodes n) s = Inr s1"
    and s': "s' = s1\<lparr>nodes := (nodes s1)(a := None)\<rparr>"
    by (auto split: option.splits sum.splits)
  have sub: "nodes_only s s1 \<and>
     (\<forall>b. nodes s1 b = nodes s b \<or>
        (nodes s1 b = None \<and> (\<exists>c \<in> set (subnodes n). b = c \<or> descendant s c b)))"
    by (rule free_subnodes_sound [OF _ run]) (use Suc.IH in auto)
  show ?case
    unfolding freed_below_def
  proof (intro conjI allI)
    show "nodes_only s s'"
      using sub s' by (auto intro: nodes_only_trans nodes_only_nodes_update)
  next
    fix b
    from sub have "nodes s1 b = nodes s b \<or>
        (nodes s1 b = None \<and> (\<exists>c \<in> set (subnodes n). b = c \<or> descendant s c b))" by blast
    then show "nodes s' b = nodes s b \<or> (nodes s' b = None \<and> (b = a \<or> descendant s a b))"
      using n s' by (auto intro: descendant.child descendant.below)
  qed
qed

lemma rpos_only_refl: "rpos_only s s"
  by (simp add: rpos_only_def)

lemma rpos_only_trans: "rpos_only s s1 \<Longrightarrow> rpos_only s1 s2 \<Longrightarrow> rpos_only s s2"
  unfolding rpos_only_def by (metis state.update_convs(7) state.surjective state.select_convs(7))

lemma rpos_only_nodes: "rpos_only s s' \<Longrightarrow> nodes s' = nodes s"
  unfolding rpos_only_def by (metis state.select_convs(1) state.surjective state.update_convs(7))

lemma rpos_only_fields:
  assumes "rpos_only s s'"
  shows "node_next s' = node_next s" "trees s' = trees s" "tree_next s' = tree_next s"
    "max_depth s' = max_depth s" "rnd s' = rnd s" "nodes s' = nodes s"
  using assms unfolding rpos_only_def
  by (metis state.select_convs state.surjective state.update_convs(7))+

lemma descendant_rpos_only: "rpos_only s s' \<Longrightarrow> descendant s' a b = descendant s a b"
  by (auto intro: descendant_mono simp: rpos_only_nodes)

lemma pick_first_sound:
  assumes P: "\<And>c s r s'. c \<in> set cs \<Longrightarrow> P c s = Inr (r, s') \<Longrightarrow>
        rpos_only s s' \<and> (\<forall>a. r = Some a \<longrightarrow> a = c \<or> descendant s c a)"
    and run: "pick_first P cs s = Inr (r, s')"
  shows "rpos_only s s' \<and> (\<forall>a. r = Some a \<longrightarrow> (\<exists>c \<in> set cs. a = c \<or> descendant s c a))"
  using assms
proof (induction cs arbitrary: s)
  case Nil
  then show ?case by (simp add: rpos_only_refl)
next
  case (Cons c cs)
  from Cons.prems(2) obtain r1 s1 where c: "P c s = Inr (r1, s1)"
    by (auto split: sum.splits)
  from Cons.prems(1) [OF _ c] have c1: "rpos_only s s1"
    "\<forall>a. r1 = Some a \<longrightarrow> a = c \<or> descendant s c a" by auto
  show ?case
  proof (cases r1)
    case (Some a)
    with c Cons.prems(2) c1 show ?thesis by auto
  next
    case None
    with c Cons.prems(2) have rest: "pick_first P cs s1 = Inr (r, s')" by simp
    have "rpos_only s1 s' \<and> (\<forall>a. r = Some a \<longrightarrow> (\<exists>c \<in> set cs. a = c \<or> descendant s1 c a))"
      by (rule Cons.IH [OF _ rest]) (use Cons.prems(1) in auto)
    with c1(1) show ?thesis
      by (auto simp: descendant_rpos_only intro: rpos_only_trans)
  qed
qed

lemma pick_node_sound:
  "pick_node fuel r s = Inr (res, s') \<Longrightarrow>
     rpos_only s s' \<and> (\<forall>a. res = Some a \<longrightarrow> a = r \<or> descendant s r a)"
proof (induction fuel arbitrary: r s res s')
  case 0
  then show ?case by simp
next
  case (Suc fuel)
  let ?s1 = "s\<lparr>rpos := rpos s + 1\<rparr>"
  have s1: "rpos_only s ?s1" by (simp add: rpos_only_def)
  show ?case
  proof (cases "rnd s (rpos s) mod 2 \<noteq> 0")
    case True
    with Suc.prems s1 show ?thesis by (auto simp: random_draw_def)
  next
    case False
    with Suc.prems obtain n where n: "nodes s r = Some n"
      and run: "pick_first (pick_node fuel) (subnodes n) ?s1 = Inr (res, s')"
      by (auto simp: random_draw_def split: option.splits)
    have "rpos_only ?s1 s' \<and>
        (\<forall>a. res = Some a \<longrightarrow> (\<exists>c \<in> set (subnodes n). a = c \<or> descendant ?s1 c a))"
      by (rule pick_first_sound [OF _ run]) (use Suc.IH in auto)
    with s1 n show ?thesis
      by (auto simp: descendant_rpos_only intro: rpos_only_trans descendant.child descendant.below)
  qed
qed

section \<open>Cloning\<close>

lemma clone_sub_refl: "clone_sub new_node s s"
  by (auto simp: clone_sub_def same_globals_def intro!: exI [of _ "[]"])

lemma clone_sub_trans:
  assumes a: "clone_sub new_node s s1" and b: "clone_sub new_node s1 s2"
    and lt: "new_node < node_next s"
  shows "clone_sub new_node s s2"
proof -
  have le: "node_next s \<le> node_next s1" "node_next s1 \<le> node_next s2"
    using a b by (auto simp: clone_sub_def)
  have g: "same_globals s s2"
    using a b by (auto simp: clone_sub_def same_globals_def)
  have keep1: "\<And>x. x < node_next s1 \<Longrightarrow> x \<noteq> new_node \<Longrightarrow> nodes s2 x = nodes s1 x"
    using b by (auto simp: clone_sub_def)
  have out: "\<forall>x. (x < node_next s \<or> node_next s2 \<le> x) \<and> x \<noteq> new_node \<longrightarrow> nodes s2 x = nodes s x"
  proof (intro allI impI)
    fix x assume x: "(x < node_next s \<or> node_next s2 \<le> x) \<and> x \<noteq> new_node"
    then have "nodes s2 x = nodes s1 x" using b le by (auto simp: clone_sub_def)
    moreover have "nodes s1 x = nodes s x" using x a le by (auto simp: clone_sub_def)
    ultimately show "nodes s2 x = nodes s x" by simp
  qed
  have new: "\<forall>n. nodes s new_node = Some n \<longrightarrow>
        (\<exists>cs. nodes s2 new_node = Some (n\<lparr>subnodes := subnodes n @ cs\<rparr>) \<and>
           (\<forall>c \<in> set cs. node_next s \<le> c \<and> c < node_next s2 \<and>
              (\<exists>m. nodes s2 c = Some m \<and> parent m = Some new_node)))"
  proof (intro allI impI)
    fix n assume n: "nodes s new_node = Some n"
    with a obtain cs1 where 1: "nodes s1 new_node = Some (n\<lparr>subnodes := subnodes n @ cs1\<rparr>)"
      "\<forall>c \<in> set cs1. node_next s \<le> c \<and> c < node_next s1 \<and>
              (\<exists>m. nodes s1 c = Some m \<and> parent m = Some new_node)"
      unfolding clone_sub_def by blast
    with b obtain cs2 where 2: "nodes s2 new_node =
        Some (n\<lparr>subnodes := subnodes n @ cs1\<rparr>\<lparr>subnodes := subnodes (n\<lparr>subnodes := subnodes n @ cs1\<rparr>) @ cs2\<rparr>)"
      "\<forall>c \<in> set cs2. node_next s1 \<le> c \<and> c < node_next s2 \<and>
              (\<exists>m. nodes s2 c = Some m \<and> parent m = Some new_node)"
      unfolding clone_sub_def by blast
    have "\<forall>c \<in> set (cs1 @ cs2). node_next s \<le> c \<and> c < node_next s2 \<and>
              (\<exists>m. nodes s2 c = Some m \<and> parent m = Some new_node)"
    proof
      fix c assume "c \<in> set (cs1 @ cs2)"
      then consider "c \<in> set cs1" | "c \<in> set cs2" by auto
      then show "node_next s \<le> c \<and> c < node_next s2 \<and>
              (\<exists>m. nodes s2 c = Some m \<and> parent m = Some new_node)"
      proof cases
        case 1
        with \<open>\<forall>c \<in> set cs1. _\<close> have c: "node_next s \<le> c" "c < node_next s1"
          "\<exists>m. nodes s1 c = Some m \<and> parent m = Some new_node" by auto
        with lt have "c \<noteq> new_node" by simp
        with keep1 c le show ?thesis by auto
      next
        case 2
        with \<open>\<forall>c \<in> set cs2. _\<close> le show ?thesis by auto
      qed
    qed
    with 2(1) show "\<exists>cs. nodes s2 new_node = Some (n\<lparr>subnodes := subnodes n @ cs\<rparr>) \<and>
           (\<forall>c \<in> set cs. node_next s \<le> c \<and> c < node_next s2 \<and>
              (\<exists>m. nodes s2 c = Some m \<and> parent m = Some new_node))"
      by (intro exI [of _ "cs1 @ cs2"]) simp
  qed
  have reg: "\<forall>x. node_next s \<le> x \<and> x < node_next s2 \<longrightarrow>
        node_ok s2 (node_next s2) x \<and> has_parent s2 new_node x"
  proof (intro allI impI)
    fix x assume x: "node_next s \<le> x \<and> x < node_next s2"
    show "node_ok s2 (node_next s2) x \<and> has_parent s2 new_node x"
    proof (cases "x < node_next s1")
      case False
      with x b show ?thesis by (auto simp: clone_sub_def)
    next
      case True
      with x a have ok1: "node_ok s1 (node_next s1) x" and hp1: "has_parent s1 new_node x"
        by (auto simp: clone_sub_def)
      from x lt have xn: "x \<noteq> new_node" by simp
      from ok1 obtain n where n: "nodes s1 x = Some n"
        "\<forall>c \<in> set (subnodes n). x < c \<and> c < node_next s1 \<and>
            (\<exists>m. nodes s1 c = Some m \<and> parent m = Some x)"
        unfolding node_ok_def by blast
      have "\<forall>c \<in> set (subnodes n). x < c \<and> c < node_next s2 \<and>
            (\<exists>m. nodes s2 c = Some m \<and> parent m = Some x)"
      proof
        fix c assume "c \<in> set (subnodes n)"
        with n(2) have c: "x < c" "c < node_next s1" "\<exists>m. nodes s1 c = Some m \<and> parent m = Some x"
          by auto
        with x lt have "c \<noteq> new_node" by simp
        with keep1 [OF c(2)] c le show "x < c \<and> c < node_next s2 \<and>
            (\<exists>m. nodes s2 c = Some m \<and> parent m = Some x)" by auto
      qed
      moreover have "nodes s2 x = Some n" using keep1 [OF True xn] n by simp
      ultimately have "node_ok s2 (node_next s2) x"
        unfolding node_ok_def by blast
      moreover
      from hp1 obtain n' p m where p: "nodes s1 x = Some n'" "parent n' = Some p" "new_node \<le> p"
        "p < x" "nodes s1 p = Some m" "x \<in> set (subnodes m)"
        unfolding has_parent_def by blast
      have "\<exists>m'. nodes s2 p = Some m' \<and> x \<in> set (subnodes m')"
      proof (cases "p = new_node")
        case pn: True
        have "\<exists>n0. nodes s new_node = Some n0 \<or> True" by simp
        from b p(5) pn obtain cs where "nodes s2 new_node = Some (m\<lparr>subnodes := subnodes m @ cs\<rparr>)"
          unfolding clone_sub_def by blast
        with p(6) pn show ?thesis by simp
      next
        case False
        from p(4) True have "p < node_next s1" by simp
        from keep1 [OF this False] p show ?thesis by simp
      qed
      with p keep1 [OF True xn] have "has_parent s2 new_node x"
        unfolding has_parent_def by auto
      ultimately show ?thesis by simp
    qed
  qed
  show ?thesis
    unfolding clone_sub_def using le g out new reg by auto
qed

lemma clone_sub_attach:
  assumes reg: "clone_region s s1" and lt: "new_node < node_next s"
    and live: "nodes s new_node = Some n0"
  shows "clone_sub new_node s
           (set_subnode new_node (node_next s)
              (upd_node (node_next s) (\<lambda>n. n\<lparr>parent := Some new_node\<rparr>) s1))"
proof -
  let ?c = "node_next s"
  let ?s2 = "set_subnode new_node ?c (upd_node ?c (\<lambda>n. n\<lparr>parent := Some new_node\<rparr>) s1)"
  from reg obtain m where m: "nodes s1 ?c = Some m" "parent m = None"
    unfolding clone_region_def by blast
  have nx: "node_next ?s2 = node_next s1" and lt1: "?c < node_next s1"
    and g: "same_globals s ?s2"
    using reg by (auto simp: clone_region_def set_subnode_def upd_node_def same_globals_def)
  have new1: "nodes s1 new_node = Some n0"
    using reg lt live by (auto simp: clone_region_def)
  have ne: "new_node \<noteq> ?c" using lt by simp
  have at_new: "nodes ?s2 new_node = Some (n0\<lparr>subnodes := subnodes n0 @ [?c]\<rparr>)"
    using new1 ne by (simp add: set_subnode_def upd_node_def)
  have at_c: "nodes ?s2 ?c = Some (m\<lparr>parent := Some new_node\<rparr>)"
    using m ne by (simp add: set_subnode_def upd_node_def)
  have other: "\<And>x. x \<noteq> new_node \<Longrightarrow> x \<noteq> ?c \<Longrightarrow> nodes ?s2 x = nodes s1 x"
    by (simp add: set_subnode_def upd_node_def)
  have subs: "\<And>x k. x \<noteq> new_node \<Longrightarrow> nodes s1 x = Some k \<Longrightarrow>
      \<exists>k'. nodes ?s2 x = Some k' \<and> subnodes k' = subnodes k \<and>
        (x \<noteq> ?c \<longrightarrow> k' = k)"
    using m by (auto simp: set_subnode_def upd_node_def)
  have out: "\<forall>x. (x < node_next s \<or> node_next ?s2 \<le> x) \<and> x \<noteq> new_node \<longrightarrow>
      nodes ?s2 x = nodes s x"
    using reg other nx lt1 by (auto simp: clone_region_def)
  have new: "\<forall>n. nodes s new_node = Some n \<longrightarrow>
        (\<exists>cs. nodes ?s2 new_node = Some (n\<lparr>subnodes := subnodes n @ cs\<rparr>) \<and>
           (\<forall>c \<in> set cs. node_next s \<le> c \<and> c < node_next ?s2 \<and>
              (\<exists>m. nodes ?s2 c = Some m \<and> parent m = Some new_node)))"
    using live at_new at_c nx lt1 by (auto intro!: exI [of _ "[?c]"])
  have reg2: "\<forall>x. node_next s \<le> x \<and> x < node_next ?s2 \<longrightarrow>
        node_ok ?s2 (node_next ?s2) x \<and> has_parent ?s2 new_node x"
  proof (intro allI impI)
    fix x assume x: "node_next s \<le> x \<and> x < node_next ?s2"
    with lt have xn: "x \<noteq> new_node" by simp
    from x nx reg have ok1: "node_ok s1 (node_next s1) x"
      by (auto simp: clone_region_def)
    then obtain k where k: "nodes s1 x = Some k"
      "\<forall>c \<in> set (subnodes k). x < c \<and> c < node_next s1 \<and>
          (\<exists>m. nodes s1 c = Some m \<and> parent m = Some x)"
      unfolding node_ok_def by blast
    from subs [OF xn k(1)] obtain k' where k': "nodes ?s2 x = Some k'" "subnodes k' = subnodes k"
      by blast
    have "\<forall>c \<in> set (subnodes k'). x < c \<and> c < node_next ?s2 \<and>
          (\<exists>m. nodes ?s2 c = Some m \<and> parent m = Some x)"
    proof
      fix c assume "c \<in> set (subnodes k')"
      with k(2) k'(2) have c: "x < c" "c < node_next s1"
        "\<exists>m. nodes s1 c = Some m \<and> parent m = Some x" by auto
      with x lt have "c \<noteq> new_node" "c \<noteq> ?c" by auto
      from other [OF this] c nx show "x < c \<and> c < node_next ?s2 \<and>
          (\<exists>m. nodes ?s2 c = Some m \<and> parent m = Some x)" by simp
    qed
    with k'(1) have ok: "node_ok ?s2 (node_next ?s2) x"
      unfolding node_ok_def by blast
    have "has_parent ?s2 new_node x"
    proof (cases "x = ?c")
      case True
      with at_c at_new lt show ?thesis
        unfolding has_parent_def by auto
    next
      case False
      with x nx reg have "has_parent s1 ?c x"
        by (auto simp: clone_region_def)
      then obtain n p pm where p: "nodes s1 x = Some n" "parent n = Some p" "?c \<le> p" "p < x"
        "nodes s1 p = Some pm" "x \<in> set (subnodes pm)"
        unfolding has_parent_def by blast
      from p(3) lt have pn: "p \<noteq> new_node" by simp
      from subs [OF pn p(5)] obtain pm' where "nodes ?s2 p = Some pm'" "subnodes pm' = subnodes pm"
        by blast
      moreover have "nodes ?s2 x = Some n"
        using other [OF xn False] p(1) by simp
      ultimately show ?thesis
        unfolding has_parent_def using p lt by auto
    qed
    with ok show "node_ok ?s2 (node_next ?s2) x \<and> has_parent ?s2 new_node x" by simp
  qed
  show ?thesis
    unfolding clone_sub_def using nx lt1 g out new reg2 by auto
qed

lemma clone_region_from_sub:
  assumes n: "nodes s a = Some n"
    and sub: "clone_sub (node_next s)
        (s\<lparr>nodes := (nodes s)(node_next s \<mapsto> n\<lparr>parent := None, subnodes := []\<rparr>),
           node_next := node_next s + 1\<rparr>) s1"
  shows "clone_region s s1"
proof -
  let ?new = "node_next s"
  let ?s0 = "s\<lparr>nodes := (nodes s)(?new \<mapsto> n\<lparr>parent := None, subnodes := []\<rparr>),
           node_next := ?new + 1\<rparr>"
  have nx0: "node_next ?s0 = ?new + 1" by simp
  from sub have le: "?new + 1 \<le> node_next s1" and g: "same_globals s s1"
    by (auto simp: clone_sub_def same_globals_def)
  from sub obtain cs where cs: "nodes s1 ?new = Some (n\<lparr>parent := None, subnodes := cs\<rparr>)"
    "\<forall>c \<in> set cs. ?new + 1 \<le> c \<and> c < node_next s1 \<and>
        (\<exists>m. nodes s1 c = Some m \<and> parent m = Some ?new)"
    unfolding clone_sub_def by fastforce
  have out: "\<forall>x. x < ?new \<or> node_next s1 \<le> x \<longrightarrow> nodes s1 x = nodes s x"
  proof (intro allI impI)
    fix x assume x: "x < ?new \<or> node_next s1 \<le> x"
    with le have "(x < node_next ?s0 \<or> node_next s1 \<le> x) \<and> x \<noteq> ?new" by auto
    with sub have "nodes s1 x = nodes ?s0 x"
      unfolding clone_sub_def by blast
    with x le show "nodes s1 x = nodes s x" by auto
  qed
  have ok: "\<forall>x. ?new \<le> x \<and> x < node_next s1 \<longrightarrow> node_ok s1 (node_next s1) x"
  proof (intro allI impI)
    fix x assume x: "?new \<le> x \<and> x < node_next s1"
    show "node_ok s1 (node_next s1) x"
    proof (cases "x = ?new")
      case True
      with cs show ?thesis unfolding node_ok_def by fastforce
    next
      case False
      with x sub show ?thesis unfolding clone_sub_def by auto
    qed
  qed
  have hp: "\<forall>x. ?new < x \<and> x < node_next s1 \<longrightarrow> has_parent s1 ?new x"
    using sub unfolding clone_sub_def by auto
  show ?thesis
    unfolding clone_region_def using le g out cs(1) ok hp by auto
qed

lemma clone_subnodes_sound:
  assumes C: "\<And>c s r s'. c \<in> set cs \<Longrightarrow> clone c s = Inr (r, s') \<Longrightarrow>
        r = node_next s \<and> clone_region s s'"
    and run: "clone_subnodes clone new_node cs s = Inr s'"
    and lt: "new_node < node_next s" and live: "nodes s new_node = Some n0"
  shows "clone_sub new_node s s'"
  using assms
proof (induction cs arbitrary: s n0)
  case Nil
  then show ?case by (simp add: clone_sub_refl)
next
  case (Cons c cs)
  from Cons.prems(2) obtain r s1 where c: "clone c s = Inr (r, s1)"
    by (auto split: sum.splits)
  from Cons.prems(1) [OF _ c] have r: "r = node_next s" and reg: "clone_region s s1" by auto
  let ?s2 = "set_subnode new_node r (upd_node r (\<lambda>n. n\<lparr>parent := Some new_node\<rparr>) s1)"
  from c Cons.prems(2) have rest: "clone_subnodes clone new_node cs ?s2 = Inr s'" by simp
  have a: "clone_sub new_node s ?s2"
    using clone_sub_attach [OF reg Cons.prems(3,4)] r by simp
  have lt2: "new_node < node_next ?s2"
    using a Cons.prems(3) by (auto simp: clone_sub_def)
  have "\<exists>k. nodes ?s2 new_node = Some k"
    using a Cons.prems(4) unfolding clone_sub_def by blast
  then obtain k where live2: "nodes ?s2 new_node = Some k" ..
  have "clone_sub new_node ?s2 s'"
    by (rule Cons.IH [OF _ rest lt2 live2]) (use Cons.prems(1) in auto)
  from clone_sub_trans [OF a this Cons.prems(3)] show ?case .
qed

lemma node_clone_region:
  "node_clone fuel a s = Inr (a', s') \<Longrightarrow> a' = node_next s \<and> clone_region s s'"
proof (induction fuel arbitrary: a s a' s')
  case 0
  then show ?case by simp
next
  case (Suc fuel)
  let ?new = "node_next s"
  from Suc.prems obtain n where n: "nodes s a = Some n"
    and run: "clone_subnodes (node_clone fuel) ?new (subnodes n)
        (s\<lparr>nodes := (nodes s)(?new \<mapsto> n\<lparr>parent := None, subnodes := []\<rparr>),
           node_next := ?new + 1\<rparr>) = Inr s'"
    and a': "a' = ?new"
    by (auto split: option.splits sum.splits)
  have "clone_sub ?new
        (s\<lparr>nodes := (nodes s)(?new \<mapsto> n\<lparr>parent := None, subnodes := []\<rparr>),
           node_next := ?new + 1\<rparr>) s'"
    by (rule clone_subnodes_sound [OF _ run]) (use Suc.IH in auto)
  from clone_region_from_sub [OF n this] a' show ?case by simp
qed

section \<open>The order of the addresses in a tree\<close>

lemma descendant_ord_region:
  assumes "descendant s a b" and "ord_region lo hi s" and "lo \<le> a" and "a < hi"
  shows "a < b \<and> b < hi"
  using assms
proof (induction rule: descendant.induct)
  case (child a n c)
  then show ?case unfolding ord_region_def by blast
next
  case (below a n c d)
  from below.hyps(1,2) below.prems have "a < c \<and> c < hi"
    unfolding ord_region_def by blast
  with below.IH [OF below.prems(1)] below.prems(2) have "c < d \<and> d < hi" by simp
  with \<open>a < c \<and> c < hi\<close> show ?case by simp
qed

lemma ord_region_clone:
  assumes "clone_region s s'"
  shows "ord_region (node_next s) (node_next s') s'"
  unfolding ord_region_def
proof (intro allI impI ballI)
  fix a n c
  assume a: "node_next s \<le> a \<and> a < node_next s' \<and> nodes s' a = Some n"
    and c: "c \<in> set (subnodes n)"
  from assms a have "node_ok s' (node_next s') a" unfolding clone_region_def by blast
  with a c show "a < c \<and> c < node_next s'" unfolding node_ok_def by auto
qed

lemma ord_region_cong:
  assumes "ord_region lo hi s" and "\<And>a. lo \<le> a \<Longrightarrow> a < hi \<Longrightarrow> nodes s' a = nodes s a"
  shows "ord_region lo hi s'"
  unfolding ord_region_def
proof (intro allI impI ballI)
  fix a n c
  assume a: "lo \<le> a \<and> a < hi \<and> nodes s' a = Some n" and c: "c \<in> set (subnodes n)"
  with assms(2) [of a] have "lo \<le> a \<and> a < hi \<and> nodes s a = Some n" by simp
  with assms(1) c show "a < c \<and> c < hi" unfolding ord_region_def by blast
qed

lemma ord_region_sub:
  assumes "ord_region lo hi s" and "lo \<le> lo'"
  shows "ord_region lo' hi s"
  unfolding ord_region_def
proof (intro allI impI ballI)
  fix a n c
  assume a: "lo' \<le> a \<and> a < hi \<and> nodes s a = Some n" and c: "c \<in> set (subnodes n)"
  with assms(2) have "lo \<le> a \<and> a < hi \<and> nodes s a = Some n" by simp
  with assms(1) c show "a < c \<and> c < hi" unfolding ord_region_def by blast
qed

lemma clone_nodes_region: "clone_region s s' \<Longrightarrow> clone_nodes (node_next s) s'"
  unfolding clone_region_def clone_nodes_def by blast

lemma clone_nodes_cong:
  assumes "clone_nodes lo s" and "nodes s' = nodes s" and "node_next s' = node_next s"
  shows "clone_nodes lo s'"
  using assms unfolding clone_nodes_def node_ok_def has_parent_def by simp

lemma clone_nodes_ord:
  assumes "clone_nodes lo s"
  shows "ord_region lo (node_next s) s"
  unfolding ord_region_def
proof (intro allI impI ballI)
  fix a n c
  assume a: "lo \<le> a \<and> a < node_next s \<and> nodes s a = Some n" and c: "c \<in> set (subnodes n)"
  from assms a have "node_ok s (node_next s) a" unfolding clone_nodes_def by blast
  with a c show "a < c \<and> c < node_next s" unfolding node_ok_def by auto
qed

section \<open>The dispatch table\<close>

lemma gen_funcs_rules:
  "gen_funcs = None # map (\<lambda>r. Some (\<lambda>init md. gen_node init md r)) rules"
  unfolding gen_funcs_def rules_def
  by (simp add: gen_start_def [abs_def] gen_json_def [abs_def] gen_element_def [abs_def]
      gen_value_def [abs_def] gen_object_def [abs_def] gen_members_def [abs_def]
      gen_member_def [abs_def] gen_array_def [abs_def] gen_elements_def [abs_def]
      gen_string_def [abs_def] gen_characters_def [abs_def] gen_character_def [abs_def]
      gen_esc_def [abs_def] gen_escc_def [abs_def] gen_number_def [abs_def]
      gen_int_def [abs_def] gen_digits_def [abs_def] gen_digit_def [abs_def]
      gen_onenine_def [abs_def] gen_frac_def [abs_def] gen_exp_def [abs_def]
      gen_sign_def [abs_def] gen_ws_def [abs_def] gen_sp1_def [abs_def]
      gen_symbol_def [abs_def] gen_symbol_1_def [abs_def] gen_symbol_2_def [abs_def]
      gen_symbol_1_1_def [abs_def] gen_character_1_def [abs_def] gen_digit_1_def [abs_def])

lemma rule_id_rules: "k < 30 \<Longrightarrow> rule_id (rules ! k) = Suc k"
proof -
  have "\<forall>k<30. rule_id (rules ! k) = Suc k"
    unfolding rules_def by (simp add: eval_nat_numeral All_less_Suc)
  then show "k < 30 \<Longrightarrow> rule_id (rules ! k) = Suc k" by blast
qed

lemma gen_funcs_nth:
  assumes "i < length gen_funcs" and "gen_funcs ! i = Some g"
  shows "\<exists>r. rule_id r = i \<and> g = (\<lambda>init md. gen_node init md r)"
proof -
  have len: "length rules = 30" by (simp add: rules_def)
  from assms(2) obtain k where k: "i = Suc k" by (cases i) (auto simp: gen_funcs_rules)
  with assms(1) len have kl: "k < length rules" by (simp add: gen_funcs_rules)
  with assms(2) k have g: "g = (\<lambda>init md. gen_node init md (rules ! k))"
    by (simp add: gen_funcs_rules)
  have "rule_id (rules ! k) = i" using kl len k rule_id_rules by simp
  then show ?thesis using g by blast
qed

section \<open>The two halves of random_mutation\<close>

text \<open>
  After the first half the store holds the clone, from the old allocation counter up,
  next to everything it held before, and the picked node is a node of the clone.
\<close>

lemma random_mutation_pick_sound:
  assumes "random_mutation_pick fuel tree s = Inr ((mt, node), s2)"
  shows "\<exists>t r. trees s tree = Some t \<and> root t = Some r \<and> mt = tree_next s \<and>
     tree_next s2 = tree_next s + 1 \<and>
     trees s2 = (trees s)(mt \<mapsto> t\<lparr>root := Some (node_next s)\<rparr>) \<and>
     max_depth s2 = max_depth s \<and> rnd s2 = rnd s \<and>
     (\<forall>a. a < node_next s \<longrightarrow> nodes s2 a = nodes s a) \<and>
     clone_nodes (node_next s) s2 \<and> node_next s \<le> node \<and> node < node_next s2"
proof -
  from assms obtain s1 tm r' picked where
    tc: "tree_clone fuel tree s = Inr (mt, s1)" and tm: "trees s1 mt = Some tm"
    and r': "root tm = Some r'" and pk: "pick_node fuel r' s1 = Inr (picked, s2)"
    and nd: "node = (case picked of None \<Rightarrow> r' | Some x \<Rightarrow> x)"
    unfolding random_mutation_pick_def
    by (auto split: sum.splits option.splits prod.splits)
  from tc obtain t where t: "trees s tree = Some t"
    unfolding tree_clone_def by (auto split: option.splits)
  have "root t \<noteq> None"
  proof
    assume "root t = None"
    with tc t have "mt = tree_next s" "s1 = s\<lparr>trees := (trees s)(tree_next s \<mapsto> t), tree_next := tree_next s + 1\<rparr>"
      unfolding tree_clone_def by auto
    with tm have "tm = t" by simp
    with r' \<open>root t = None\<close> show False by simp
  qed
  then obtain r where r: "root t = Some r" by auto
  from tc t r obtain c' sc where nc: "node_clone fuel r s = Inr (c', sc)"
    and mt: "mt = tree_next sc"
    and s1: "s1 = sc\<lparr>trees := (trees sc)(tree_next sc \<mapsto> t\<lparr>root := Some c'\<rparr>),
                  tree_next := tree_next sc + 1\<rparr>"
    unfolding tree_clone_def by (auto split: sum.splits prod.splits)
  from node_clone_region [OF nc] have c': "c' = node_next s" and reg: "clone_region s sc"
    by simp_all
  from reg have glob: "trees sc = trees s" "tree_next sc = tree_next s"
      "max_depth sc = max_depth s" "rnd sc = rnd s"
    and keep: "\<forall>a. a < node_next s \<longrightarrow> nodes sc a = nodes s a"
    unfolding clone_region_def same_globals_def by simp_all
  from tm mt s1 have "tm = t\<lparr>root := Some c'\<rparr>" by simp
  with r' c' have r'_eq: "r' = node_next s" by simp
  from pick_node_sound [OF pk] have ro: "rpos_only s1 s2"
    and res: "\<And>a. picked = Some a \<Longrightarrow> a = r' \<or> descendant s1 r' a"
    by simp_all
  note f = rpos_only_fields [OF ro]
  have n1: "nodes s1 = nodes sc" "node_next s1 = node_next sc" by (simp_all add: s1)
  have cn: "clone_nodes (node_next s) s2"
    by (rule clone_nodes_cong [OF clone_nodes_region [OF reg]]) (simp_all add: f n1)
  from cn have lt: "node_next s < node_next s2" unfolding clone_nodes_def by simp
  have "ord_region (node_next s) (node_next sc) s1"
    by (rule ord_region_cong [OF ord_region_clone [OF reg]]) (simp_all add: n1)
  then have ord: "ord_region (node_next s) (node_next s1) s1" by (simp add: n1)
  have node: "node_next s \<le> node \<and> node < node_next s2"
  proof (cases picked)
    case None
    with nd r'_eq lt show ?thesis by simp
  next
    case (Some x)
    from res [OF Some] show ?thesis
    proof
      assume "x = r'"
      with nd Some r'_eq lt show ?thesis by simp
    next
      assume "descendant s1 r' x"
      from descendant_ord_region [OF this ord] r'_eq lt f(1) have "r' < x \<and> x < node_next s1"
        by simp
      with nd Some r'_eq f(1) show ?thesis by simp
    qed
  qed
  have "trees s2 = (trees s)(mt \<mapsto> t\<lparr>root := Some (node_next s)\<rparr>)"
    by (simp add: f s1 glob mt c')
  moreover have "tree_next s2 = tree_next s + 1" by (simp add: f s1 glob)
  moreover have "max_depth s2 = max_depth s" "rnd s2 = rnd s" by (simp_all add: f s1 glob)
  moreover have "\<forall>a. a < node_next s \<longrightarrow> nodes s2 a = nodes s a" using keep by (simp add: f n1)
  moreover have "mt = tree_next s" by (simp add: mt glob)
  ultimately show ?thesis using t r cn node by blast
qed

text \<open>
  The second half, on a store that ends with a cloned tree and a node of it: the
  generator for the node's rule runs under the drawn bound and its result stands where
  the node stood, in the tree record when the node was the root and in the slot of
  its parent otherwise.  Nothing below the clone is written.
\<close>

lemma random_mutation_replace_sound:
  assumes cn: "clone_nodes lo s" and lo: "lo \<le> node" and hi: "node < node_next s"
    and run: "random_mutation_replace init fuel mt node s = Inr (mt', s')"
  shows "\<exists>n r m s2 s3. nodes s node = Some n \<and> rule_id r = node_id n \<and>
     s2 = s\<lparr>rpos := rpos s + 1, max_depth := int (rnd s (rpos s) mod 15) + 1\<rparr> \<and>
     gen_node init (max_depth s2) r 0 s2 = (node_next s, s3) \<and>
     nodes s' (node_next s) = Some m \<and> node_id m = node_id n \<and> mt' = mt \<and>
     (\<exists>m3. nodes s3 (node_next s) = Some m3 \<and> m = m3\<lparr>parent := parent n\<rparr>) \<and>
     (\<forall>a. node_next s < a \<longrightarrow> nodes s' a = nodes s3 a) \<and>
     max_depth s' = max_depth s2 \<and> rnd s' = rnd s \<and> tree_next s' = tree_next s \<and>
     (\<forall>a. a < lo \<longrightarrow> nodes s' a = nodes s a) \<and>
     (\<forall>t. t \<noteq> mt \<longrightarrow> trees s' t = trees s t) \<and>
     (case parent n of
        None \<Rightarrow> (\<exists>t. trees s mt = Some t \<and> trees s' mt = Some (t\<lparr>root := Some (node_next s)\<rparr>))
      | Some p \<Rightarrow> trees s' = trees s \<and> parent m = Some p \<and>
          (\<exists>pn j pn'. nodes s p = Some pn \<and> j < length (subnodes pn) \<and> subnodes pn ! j = node \<and>
             nodes s' p = Some pn' \<and> subnodes pn' = (subnodes pn)[j := node_next s]))"
proof -
  define s2 where "s2 = s\<lparr>rpos := rpos s + 1, max_depth := int (rnd s (rpos s) mod 15) + 1\<rparr>"
  from run obtain n where n: "nodes s node = Some n"
    unfolding random_mutation_replace_def by (cases "nodes s node") simp_all
  let ?rest = "(case gen_funcs ! node_id n of
         None \<Rightarrow> Inl NullCall
       | Some gen_func \<Rightarrow>
           (case gen_func init (max_depth s2) 0 s2 of (replace_node, s3) \<Rightarrow>
              (case parent n of
                 None \<Rightarrow>
                   (case node_free fuel node s3 of
                      Inl e \<Rightarrow> Inl e
                    | Inr s4 \<Rightarrow>
                        (case trees s4 mt of
                           None \<Rightarrow> Inl BadPointer
                         | Some _ \<Rightarrow>
                             Inr (mt, upd_tree mt (\<lambda>t. t\<lparr>root := Some replace_node\<rparr>) s4)))
               | Some p \<Rightarrow>
                   (case node_replace_subnode fuel p node replace_node s3 of
                      Inl e \<Rightarrow> Inl e
                    | Inr (_, s4) \<Rightarrow>
                        (case node_free fuel node s4 of
                           Inl e \<Rightarrow> Inl e
                         | Inr s5 \<Rightarrow> Inr (mt, s5))))))"
  from run n have run0: "(if length gen_funcs \<le> node_id n then Inl OutOfBounds else ?rest) =
      Inr (mt', s')"
    unfolding random_mutation_replace_def random_draw_def Let_def s2_def
    by (simp only: option.case prod.case)
  have nle: "\<not> length gen_funcs \<le> node_id n"
    using run0 by (cases "length gen_funcs \<le> node_id n") simp_all
  then have len: "node_id n < length gen_funcs" by simp
  from run0 nle have run1: "?rest = Inr (mt', s')"
    by (simp only: if_False)
  from run1 obtain g where g: "gen_funcs ! node_id n = Some g"
    by (cases "gen_funcs ! node_id n") simp_all
  from gen_funcs_nth [OF len g] obtain r where r: "rule_id r = node_id n"
    and g_eq: "g = (\<lambda>init md. gen_node init md r)" by blast
  obtain rep s3 where gen: "gen_node init (max_depth s2) r 0 s2 = (rep, s3)"
    by (metis surj_pair)
  from run1 g g_eq gen have run2: "(case parent n of
         None \<Rightarrow>
           (case node_free fuel node s3 of
              Inl e \<Rightarrow> Inl e
            | Inr s4 \<Rightarrow>
                (case trees s4 mt of
                   None \<Rightarrow> Inl BadPointer
                 | Some _ \<Rightarrow> Inr (mt, upd_tree mt (\<lambda>t. t\<lparr>root := Some rep\<rparr>) s4)))
       | Some p \<Rightarrow>
           (case node_replace_subnode fuel p node rep s3 of
              Inl e \<Rightarrow> Inl e
            | Inr (_, s4) \<Rightarrow>
                (case node_free fuel node s4 of
                   Inl e \<Rightarrow> Inl e
                 | Inr s5 \<Rightarrow> Inr (mt, s5)))) = Inr (mt', s')"
    by simp
  have s2f: "nodes s2 = nodes s" "node_next s2 = node_next s" "trees s2 = trees s"
    "tree_next s2 = tree_next s" "rnd s2 = rnd s"
    by (simp_all add: s2_def)
  from gen_node_region [OF gen] s2f have rep: "rep = node_next s" and rep_lt: "rep < node_next s3"
    and reg: "gen_region s2 s3" by simp_all
  from gen_node_region(4) [OF gen] r obtain m where m: "nodes s3 rep = Some m"
    "node_id m = node_id n" by auto
  from reg rep rep_lt s2f m(1) have pm: "parent m = None"
    unfolding gen_region_def by fastforce
  from reg s2f have keep3: "\<And>a. a < node_next s \<Longrightarrow> nodes s3 a = nodes s a"
    and g3: "trees s3 = trees s" "tree_next s3 = tree_next s" "max_depth s3 = max_depth s2"
      "rnd s3 = rnd s"
    unfolding gen_region_def by simp_all
  have ordA: "ord_region lo (node_next s) s3"
    by (rule ord_region_cong [OF clone_nodes_ord [OF cn]]) (simp add: keep3)
  show ?thesis
  proof (cases "parent n")
    case None
    with run2 have r3: "(case node_free fuel node s3 of
          Inl e \<Rightarrow> Inl e
        | Inr s4 \<Rightarrow>
            (case trees s4 mt of
               None \<Rightarrow> Inl BadPointer
             | Some _ \<Rightarrow> Inr (mt, upd_tree mt (\<lambda>t. t\<lparr>root := Some rep\<rparr>) s4))) = Inr (mt', s')"
      by simp
    then obtain s4 where fr: "node_free fuel node s3 = Inr s4"
      by (cases "node_free fuel node s3") simp_all
    with r3 have r4: "(case trees s4 mt of
          None \<Rightarrow> Inl BadPointer
        | Some _ \<Rightarrow> Inr (mt, upd_tree mt (\<lambda>t. t\<lparr>root := Some rep\<rparr>) s4)) = Inr (mt', s')"
      by simp
    then obtain tt where tt: "trees s4 mt = Some tt"
      by (cases "trees s4 mt") simp_all
    with r4 have s': "s' = upd_tree mt (\<lambda>t. t\<lparr>root := Some rep\<rparr>) s4" and mt': "mt' = mt"
      by auto
    from node_free_sound [OF fr] have no: "nodes_only s3 s4"
      and fb: "\<And>b. nodes s4 b = nodes s3 b \<or> (nodes s4 b = None \<and> (b = node \<or> descendant s3 node b))"
      unfolding freed_below_def by simp_all
    note f4 = nodes_only_fields [OF no]
    have out: "nodes s4 b = nodes s3 b" if "b < lo \<or> node_next s \<le> b" for b
    proof -
      have "lo \<le> b \<and> b < node_next s" if "b = node \<or> descendant s3 node b"
        using that descendant_ord_region [OF _ ordA lo hi, of b] lo hi by auto
      with fb [of b] that show ?thesis by auto
    qed
    have 1: "nodes s' (node_next s) = Some m"
      using out [of rep] m rep by (simp add: s' upd_tree_def)
    have 2: "max_depth s' = max_depth s2" "rnd s' = rnd s" "tree_next s' = tree_next s"
      by (simp_all add: s' upd_tree_def f4 g3)
    have 3: "\<forall>a. a < lo \<longrightarrow> nodes s' a = nodes s a"
      using out keep3 lo hi by (simp add: s' upd_tree_def)
    have 4: "\<forall>t. t \<noteq> mt \<longrightarrow> trees s' t = trees s t"
      by (simp add: s' upd_tree_def f4 g3)
    have 5: "trees s mt = Some tt \<and> trees s' mt = Some (tt\<lparr>root := Some (node_next s)\<rparr>)"
      using tt by (simp add: s' upd_tree_def f4 g3 rep)
    have "m\<lparr>parent := parent m\<rparr> = m" by simp
    with pm None m(1) rep have 7: "\<exists>m3. nodes s3 (node_next s) = Some m3 \<and> m = m3\<lparr>parent := parent n\<rparr>"
      by auto
    have 8: "\<forall>a. node_next s < a \<longrightarrow> nodes s' a = nodes s3 a"
      using out by (simp add: s' upd_tree_def)
    from n r gen 1 m(2) mt' 2 3 4 5 7 8 None show ?thesis
      apply -
      apply (rule exI [of _ n], rule exI [of _ r], rule exI [of _ m], rule exI [of _ s2],
          rule exI [of _ s3])
      apply (simp add: rep s2_def)
      done
  next
    case (Some p)
    with run2 have r3: "(case node_replace_subnode fuel p node rep s3 of
          Inl e \<Rightarrow> Inl e
        | Inr (_, s4) \<Rightarrow>
            (case node_free fuel node s4 of
               Inl e \<Rightarrow> Inl e
             | Inr s5 \<Rightarrow> Inr (mt, s5))) = Inr (mt', s')"
      by simp
    then obtain b s4 where rp: "node_replace_subnode fuel p node rep s3 = Inr (b, s4)"
      by (cases "node_replace_subnode fuel p node rep s3") auto
    with r3 have r4: "(case node_free fuel node s4 of
          Inl e \<Rightarrow> Inl e
        | Inr s5 \<Rightarrow> Inr (mt, s5)) = Inr (mt', s')"
      by simp
    then have fr: "node_free fuel node s4 = Inr s'" and mt': "mt' = mt"
      by (cases "node_free fuel node s4"; simp)+
    from cn obtain n0 where n0: "nodes s lo = Some n0" "parent n0 = None"
      unfolding clone_nodes_def by blast
    with n Some have "node \<noteq> lo" by auto
    with lo hi cn have "has_parent s lo node" unfolding clone_nodes_def by simp
    with n Some obtain pm where p: "lo \<le> p" "p < node" "nodes s p = Some pm"
      "node \<in> set (subnodes pm)"
      unfolding has_parent_def by auto
    from p hi have p_hi: "p < node_next s" by simp
    from keep3 [OF p_hi] p have pm3: "nodes s3 p = Some pm" by simp
    have d: "descendant s3 p node" by (rule descendant.child [OF pm3 p(4)])
    from node_replace_subnode_sound [OF rp] d have b: b by blast
    with node_replace_subnode_sound [OF rp] obtain q j where
      f: "found_at s3 p node q j" and s4: "s4 = replaced_at q j rep s3" by blast
    from f obtain qn where q: "q = p \<or> descendant s3 p q" and qn: "nodes s3 q = Some qn"
      "j < length (subnodes qn)" "subnodes qn ! j = node"
      unfolding found_at_def by (auto split: option.splits)
    from q descendant_ord_region [OF _ ordA p(1) p_hi, of q] p p_hi
    have q_in: "lo \<le> q \<and> q < node_next s" by auto
    with cn have "node_ok s (node_next s) q" unfolding clone_nodes_def by blast
    moreover from keep3 q_in qn have qs: "nodes s q = Some qn" by simp
    moreover from qn have "node \<in> set (subnodes qn)" by (auto simp: in_set_conv_nth)
    ultimately have "\<exists>k. nodes s node = Some k \<and> parent k = Some q"
      unfolding node_ok_def by auto
    with n Some have qp: "q = p" by simp
    with qn pm3 have qn_eq: "qn = pm" by simp
    have ne: "rep \<noteq> p" using rep p_hi by simp
    have at_rep: "nodes s4 rep = Some (m\<lparr>parent := Some p\<rparr>)"
      using m ne by (simp add: s4 qp replaced_at_def upd_node_def)
    have at_p: "nodes s4 p = Some (pm\<lparr>subnodes := (subnodes pm)[j := rep]\<rparr>)"
      using pm3 ne by (simp add: s4 qp replaced_at_def upd_node_def)
    have other: "nodes s4 a = nodes s3 a" if "a \<noteq> p" "a \<noteq> rep" for a
      using that by (simp add: s4 qp replaced_at_def upd_node_def)
    have no4: "nodes_only s3 s4"
      unfolding s4 replaced_at_def
      by (rule nodes_only_trans [OF nodes_only_upd_node nodes_only_upd_node])
    from node_free_sound [OF fr] have no: "nodes_only s4 s'"
      and fb: "\<And>b. nodes s' b = nodes s4 b \<or> (nodes s' b = None \<and> (b = node \<or> descendant s4 node b))"
      unfolding freed_below_def by simp_all
    note f5 = nodes_only_fields [OF nodes_only_trans [OF no4 no]]
    have ord4: "ord_region node (node_next s) s4"
    proof (rule ord_region_cong [OF ord_region_sub [OF ordA lo]])
      fix a assume "node \<le> a" "a < node_next s"
      with p(2) rep show "nodes s4 a = nodes s3 a" by (intro other) simp_all
    qed
    have out: "nodes s' b = nodes s4 b" if "b < node \<or> node_next s \<le> b" for b
    proof -
      have "node \<le> b \<and> b < node_next s" if "b = node \<or> descendant s4 node b"
        using that descendant_ord_region [OF _ ord4 _ hi, of b] hi by auto
      with fb [of b] that show ?thesis by auto
    qed
    have 1: "nodes s' (node_next s) = Some (m\<lparr>parent := Some p\<rparr>)"
      using out [of rep] at_rep rep by simp
    have 2: "max_depth s' = max_depth s2" "rnd s' = rnd s" "tree_next s' = tree_next s"
      "trees s' = trees s"
      by (simp_all add: f5 g3)
    have 3: "\<forall>a. a < lo \<longrightarrow> nodes s' a = nodes s a"
    proof (intro allI impI)
      fix a assume a: "a < lo"
      with lo have "nodes s' a = nodes s4 a" by (intro out) simp
      also from a p(1) rep hi lo have "\<dots> = nodes s3 a" by (intro other) simp_all
      also from a lo hi have "\<dots> = nodes s a" by (intro keep3) simp
      finally show "nodes s' a = nodes s a" .
    qed
    have 5: "nodes s' p = Some (pm\<lparr>subnodes := (subnodes pm)[j := rep]\<rparr>)"
      using out [of p] p(2) at_p by simp
    have 6: "\<exists>pn j pn'. nodes s p = Some pn \<and> j < length (subnodes pn) \<and> subnodes pn ! j = node \<and>
             nodes s' p = Some pn' \<and> subnodes pn' = (subnodes pn)[j := node_next s]"
      using p(3) qn(2,3) 5 qn_eq rep by auto
    from Some m(1) rep have 7: "\<exists>m3. nodes s3 (node_next s) = Some m3 \<and>
        m\<lparr>parent := Some p\<rparr> = m3\<lparr>parent := parent n\<rparr>"
      by auto
    have 8: "\<forall>a. node_next s < a \<longrightarrow> nodes s' a = nodes s3 a"
    proof (intro allI impI)
      fix a assume a: "node_next s < a"
      then have "nodes s' a = nodes s4 a" by (intro out) simp
      also from a p_hi rep have "\<dots> = nodes s3 a" by (intro other) simp_all
      finally show "nodes s' a = nodes s3 a" .
    qed
    from n r gen 1 m(2) mt' 2 3 6 7 8 Some show ?thesis
      apply -
      apply (rule exI [of _ n], rule exI [of _ r], rule exI [of _ "m\<lparr>parent := Some p\<rparr>"],
          rule exI [of _ s2], rule exI [of _ s3])
      apply (simp add: rep s2_def)
      done
  qed
qed

lemma random_mutation_phases:
  assumes "random_mutation init fuel tree s = Inr (mt', s')"
  shows "\<exists>mt node s1. random_mutation_pick fuel tree s = Inr ((mt, node), s1) \<and>
           random_mutation_replace init fuel mt node s1 = Inr (mt', s')"
proof (cases "random_mutation_pick fuel tree s")
  case (Inl e)
  with assms show ?thesis by (simp add: random_mutation_def)
next
  case (Inr x)
  obtain mt node s1 where "x = ((mt, node), s1)" by (metis surj_pair)
  with Inr assms show ?thesis by (simp add: random_mutation_def)
qed

section \<open>The input tree of a mutation\<close>

text \<open>
  C3.  \<^verbatim>\<open>random_mutation\<close> does not modify its input: when it returns, the tree it returns
  is not the input tree, the input's tree record (root, depth and rendered buffer) is
  what it was, and so is every node and every tree that was live before the call, with
  its id, value, counts, parent and children.
\<close>

theorem random_mutation_keeps_input:
  assumes "allocated s" and "random_mutation init fuel tree s = Inr (mt, s')"
  shows "mt \<noteq> tree \<and> trees s' tree = trees s tree \<and>
         (\<forall>a n. nodes s a = Some n \<longrightarrow> nodes s' a = Some n) \<and>
         (\<forall>t x. trees s t = Some x \<longrightarrow> trees s' t = Some x)"
proof -
  from random_mutation_phases [OF assms(2)] obtain mt0 node s1 where
    pick: "random_mutation_pick fuel tree s = Inr ((mt0, node), s1)"
    and rep: "random_mutation_replace init fuel mt0 node s1 = Inr (mt, s')" by blast
  from random_mutation_pick_sound [OF pick] obtain t where
    t: "trees s tree = Some t" and mt0: "mt0 = tree_next s"
    and tr1: "trees s1 = (trees s)(mt0 \<mapsto> t\<lparr>root := Some (node_next s)\<rparr>)"
    and keep1: "\<forall>a. a < node_next s \<longrightarrow> nodes s1 a = nodes s a"
    and cn: "clone_nodes (node_next s) s1" and nd: "node_next s \<le> node" "node < node_next s1"
    by blast
  from random_mutation_replace_sound [OF cn nd rep] have mt: "mt = mt0"
    and keep2: "\<forall>a. a < node_next s \<longrightarrow> nodes s' a = nodes s1 a"
    and tr2: "\<forall>t. t \<noteq> mt0 \<longrightarrow> trees s' t = trees s1 t"
    by blast+
  have trees: "trees s' u = trees s u" if "trees s u = Some x" for u x
  proof -
    from that assms(1) have "u < tree_next s" unfolding allocated_def by simp
    with mt0 have "u \<noteq> mt0" by simp
    with tr2 tr1 show ?thesis by simp
  qed
  have nodes: "nodes s' a = nodes s a" if "nodes s a = Some n" for a n
  proof -
    from that assms(1) have "a < node_next s" unfolding allocated_def by simp
    with keep1 keep2 show ?thesis by simp
  qed
  from t assms(1) have "tree < tree_next s" unfolding allocated_def by simp
  with mt mt0 have "mt \<noteq> tree" by simp
  with trees [OF t] trees nodes show ?thesis by simp
qed

theorem random_mutation_keeps_input_witness:
  "allocated mutation_input \<and>
   map_sum id fst (random_mutation 0 3 0 mutation_input) = Inr 1 \<and>
   trees (snd (projr (random_mutation 0 3 0 mutation_input))) 0 = trees mutation_input 0 \<and>
   map_option subnodes (nodes mutation_input 0) = Some [1] \<and>
   map (nodes (snd (projr (random_mutation 0 3 0 mutation_input)))) [0, 1] =
     map (nodes mutation_input) [0, 1]"
proof -
  let ?s' = "snd (projr (random_mutation 0 3 0 mutation_input))"
  have al: "allocated mutation_input"
    unfolding allocated_def
    by (simp add: run_inputs run_simps run_gen_subnodes run_consts run_fuel del: run_del)
  have e: "map_sum id fst (random_mutation 0 3 0 mutation_input) = Inr 1"
    by (simp add: run_inputs run_simps run_gen_subnodes run_consts run_fuel del: run_del)
  have n: "map_option subnodes (nodes mutation_input 0) = Some [1]"
      "nodes mutation_input 0 \<noteq> None" "nodes mutation_input 1 \<noteq> None"
    by (simp_all add: run_inputs run_simps run_gen_subnodes run_consts run_fuel del: run_del)
  from random_mutation_keeps_input [OF al run_result [OF e]]
  have t: "trees ?s' 0 = trees mutation_input 0"
    and k: "\<And>a n. nodes mutation_input a = Some n \<Longrightarrow> nodes ?s' a = Some n"
    by blast+
  from n(2,3) k have "nodes ?s' 0 = nodes mutation_input 0" "nodes ?s' 1 = nodes mutation_input 1"
    by auto
  with al e t n(1) show ?thesis by simp
qed

section \<open>The rule at the mutated position\<close>



section \<open>The depth bound of a mutation\<close>




end
